theory Spec2Isabelle
  imports Main "HOL-Library.Char_ord" "HOL-Library.List_Lexorder" "HOL-Library.Multiset"
begin

section \<open>Values of a parsed specification\<close>

text \<open>
  The specification document is loaded by \<^verbatim>\<open>yaml.safe_load\<close> or \<^verbatim>\<open>json.load\<close>
  into Python values. A dictionary is an association list in insertion order, with string
  keys that are pairwise different, as the keys of a JSON object are once it is loaded.
  Floating point numbers are left out of the embedding.
  Strings are lists of code points below 256.
\<close>

datatype json =
    JNull
  | JBool bool
  | JInt int
  | JStr string
  | JList "json list"
  | JObj "(string \<times> json) list"

text \<open>
  The exceptions of the source are values. Where the source's annotations declare a
  \<^verbatim>\<open>Dict\<close> and the value is of another type, Python raises
  \<^verbatim>\<open>TypeError\<close> or \<^verbatim>\<open>AttributeError\<close>, or carries on with the behaviour of a
  string or a list in the place of a dictionary; the embedding reports an error for all of
  these, so a result \<open>Inr\<close> is always a result of the source on a document of the
  declared shape.
\<close>

datatype error = AttributeError | TypeError | KeyError

fun as_dict :: "json \<Rightarrow> error + (string \<times> json) list" where
  "as_dict (JObj d) = Inr d"
| "as_dict _ = Inl TypeError"

text \<open>
  The values that a \<^verbatim>\<open>for\<close> loop or a comprehension walks: the elements of a list,
  the characters of a string, the keys of a dictionary; no other value is iterable.
\<close>

fun py_iter :: "json \<Rightarrow> error + json list" where
  "py_iter (JList xs) = Inr xs"
| "py_iter (JStr s) = Inr (map (\<lambda>c. JStr [c]) s)"
| "py_iter (JObj d) = Inr (map (\<lambda>kv. JStr (fst kv)) d)"
| "py_iter _ = Inl TypeError"

text \<open>\<^verbatim>\<open>d.get(k, dflt)\<close> on a dictionary, and on a value that may not be one.\<close>

definition dict_get :: "(string \<times> json) list \<Rightarrow> string \<Rightarrow> json \<Rightarrow> json" where
  "dict_get d k dflt = (case map_of d k of Some v \<Rightarrow> v | None \<Rightarrow> dflt)"

fun py_get :: "json \<Rightarrow> string \<Rightarrow> json \<Rightarrow> error + json" where
  "py_get (JObj d) k dflt = Inr (dict_get d k dflt)"
| "py_get _ k dflt = Inl AttributeError"

text \<open>\<^verbatim>\<open>len(x)\<close>.\<close>

fun py_len :: "json \<Rightarrow> error + nat" where
  "py_len (JStr s) = Inr (length s)"
| "py_len (JList xs) = Inr (length xs)"
| "py_len (JObj d) = Inr (length d)"
| "py_len _ = Inl TypeError"

text \<open>Truth value of a Python value, as \<^verbatim>\<open>if x:\<close> takes it.\<close>

fun truthy :: "json \<Rightarrow> bool" where
  "truthy JNull = False"
| "truthy (JBool b) = b"
| "truthy (JInt i) = (i \<noteq> 0)"
| "truthy (JStr s) = (s \<noteq> [])"
| "truthy (JList xs) = (xs \<noteq> [])"
| "truthy (JObj d) = (d \<noteq> [])"

text \<open>
  Python's \<^verbatim>\<open>==\<close>: a list equals a list of the same length with equal elements, a
  dictionary equals a dictionary with as many keys, each of its keys being a key of the
  other with an equal value, whatever the order; \<^verbatim>\<open>True == 1\<close> and
  \<^verbatim>\<open>False == 0\<close>.
\<close>

fun py_eq :: "json \<Rightarrow> json \<Rightarrow> bool" where
  "py_eq JNull y = (y = JNull)"
| "py_eq (JBool a) y =
     (case y of JBool b \<Rightarrow> a = b | JInt i \<Rightarrow> i = (if a then 1 else 0) | _ \<Rightarrow> False)"
| "py_eq (JInt i) y =
     (case y of JInt j \<Rightarrow> i = j | JBool b \<Rightarrow> i = (if b then 1 else 0) | _ \<Rightarrow> False)"
| "py_eq (JStr s) y = (y = JStr s)"
| "py_eq (JList xs) y =
     (case y of JList ys \<Rightarrow> list_all2 py_eq xs ys | _ \<Rightarrow> False)"
| "py_eq (JObj d) y =
     (case y of
        JObj d' \<Rightarrow>
          length d = length d' \<and>
          list_all (\<lambda>kv. case map_of d' (fst kv) of
                            None \<Rightarrow> False
                          | Some w \<Rightarrow> py_eq (snd kv) w) d
      | _ \<Rightarrow> False)"

text \<open>
  \<^verbatim>\<open>str.upper()\<close>: the letters \<^verbatim>\<open>a\<close> to \<^verbatim>\<open>z\<close> and the lower-case letters
  U+00E0 to U+00FE (U+00F7, the division sign, is not one) move down by 32, and U+00DF,
  the sharp s, becomes \<^verbatim>\<open>SS\<close>. Every other code point below 256 stays, except
  U+00B5 and U+00FF: their upper-case forms U+039C and U+0178 are beyond the code points of
  the embedding, so texts with these two are left out of it.
\<close>

definition upper_char :: "char \<Rightarrow> string" where
  "upper_char c =
     (let n = (of_char c :: nat)
      in if 97 \<le> n \<and> n \<le> 122 then [char_of (n - 32)]
         else if n = 223 then ''SS''
         else if 224 \<le> n \<and> n \<le> 254 \<and> n \<noteq> 247 then [char_of (n - 32)]
         else [c])"

definition upper :: "string \<Rightarrow> string" where
  "upper s = concat (map upper_char s)"

text \<open>
  A \<^verbatim>\<open>for\<close> loop over a list whose body updates a state and may raise.
\<close>

fun for_each :: "'a list \<Rightarrow> ('a \<Rightarrow> 's \<Rightarrow> error + 's) \<Rightarrow> 's \<Rightarrow> error + 's" where
  "for_each [] body s = Inr s"
| "for_each (x # xs) body s =
     (case body x s of Inl e \<Rightarrow> Inl e | Inr s' \<Rightarrow> for_each xs body s')"

section \<open>Canonical serialisation: json.dumps with sort_keys=True\<close>

fun digits :: "nat \<Rightarrow> string" where
  "digits n =
     (if n < 10 then [char_of (48 + n)]
      else digits (n div 10) @ [char_of (48 + n mod 10)])"

declare digits.simps [simp del]

definition str_int :: "int \<Rightarrow> string" where
  "str_int i = (if i < 0 then CHR ''-'' # digits (nat (- i)) else digits (nat i))"

definition hex_digit :: "nat \<Rightarrow> char" where
  "hex_digit n = (if n < 10 then char_of (48 + n) else char_of (87 + n))"

text \<open>
  The escapes of \<^verbatim>\<open>json.encoder.py_encode_basestring_ascii\<close>: the quote, the
  backslash and every code point outside the range from the space to \<^verbatim>\<open>~\<close>.
\<close>

definition escape_char :: "char \<Rightarrow> string" where
  "escape_char c =
     (if c = CHR 0x22 then [CHR 0x5C, CHR 0x22]
      else if c = CHR 0x5C then [CHR 0x5C, CHR 0x5C]
      else if c = CHR 0x0A then [CHR 0x5C, CHR ''n'']
      else if c = CHR 0x0D then [CHR 0x5C, CHR ''r'']
      else if c = CHR 0x09 then [CHR 0x5C, CHR ''t'']
      else if c = CHR 0x0C then [CHR 0x5C, CHR ''f'']
      else if c = CHR 0x08 then [CHR 0x5C, CHR ''b'']
      else if (of_char c :: nat) < 32 \<or> 126 < (of_char c :: nat)
        then [CHR 0x5C, CHR ''u'', CHR ''0'', CHR ''0'',
              hex_digit ((of_char c :: nat) div 16), hex_digit ((of_char c :: nat) mod 16)]
      else [c])"

definition encode_string :: "string \<Rightarrow> string" where
  "encode_string s = CHR 0x22 # concat (map escape_char s) @ [CHR 0x22]"

fun join :: "string \<Rightarrow> string list \<Rightarrow> string" where
  "join sep [] = []"
| "join sep [x] = x"
| "join sep (x # y # ys) = x @ sep @ join sep (y # ys)"

text \<open>
  With \<^verbatim>\<open>sort_keys=True\<close> the items of every dictionary are written in the order of
  their keys.
\<close>

fun dumps :: "json \<Rightarrow> string" where
  "dumps JNull = ''null''"
| "dumps (JBool b) = (if b then ''true'' else ''false'')"
| "dumps (JInt i) = str_int i"
| "dumps (JStr s) = encode_string s"
| "dumps (JList xs) = ''['' @ join '', '' (map dumps xs) @ '']''"
| "dumps (JObj kvs) =
     ''{'' @ join '', ''
        (map (\<lambda>(k, s). encode_string k @ '': '' @ s)
          (sort_key fst (map (\<lambda>(k, v). (k, dumps v)) kvs))) @ ''}''"

section \<open>drift_detector.py\<close>

record SpecSnapshot =
  timestamp :: string
  spec_hash :: string
  spec_version :: json
  endpoints_count :: nat
  spec_data :: "(string \<times> json) list"

text \<open>
  The detector holds the snapshots in memory; \<open>history_file\<close> is the content of
  \<^verbatim>\<open>history.json\<close>, which \<^verbatim>\<open>_save_history\<close> rewrites whole.
\<close>

record DriftDetector =
  snapshots :: "SpecSnapshot list"
  history_file :: "SpecSnapshot list"

definition save_history :: "DriftDetector \<Rightarrow> DriftDetector" where
  "save_history self = self\<lparr>history_file := snapshots self\<rparr>"

text \<open>
  \<^verbatim>\<open>hashlib.sha256(s.encode()).hexdigest()\<close> is a library function: it is the
  parameter \<open>sha256_hex\<close>. The fingerprint is the source's
  \<^verbatim>\<open>hashlib.sha256(json.dumps(spec_data, sort_keys=True).encode()).hexdigest()[:12]\<close>.
\<close>

definition fingerprint :: "(string \<Rightarrow> string) \<Rightarrow> (string \<times> json) list \<Rightarrow> string" where
  "fingerprint sha256_hex doc = take 12 (sha256_hex (dumps (JObj doc)))"

text \<open>\<^verbatim>\<open>sum(len(methods) for methods in spec_data.get('paths', {}).values())\<close>\<close>

fun sum_len :: "json list \<Rightarrow> error + nat" where
  "sum_len [] = Inr 0"
| "sum_len (m # ms) =
     (case py_len m of
        Inl e \<Rightarrow> Inl e
      | Inr n \<Rightarrow> (case sum_len ms of Inl e \<Rightarrow> Inl e | Inr k \<Rightarrow> Inr (n + k)))"

definition count_endpoints :: "(string \<times> json) list \<Rightarrow> error + nat" where
  "count_endpoints doc =
     (case dict_get doc ''paths'' (JObj []) of
        JObj paths \<Rightarrow> sum_len (map snd paths)
      | _ \<Rightarrow> Inl AttributeError)"

text \<open>
  \<open>now\<close> is \<^verbatim>\<open>datetime.utcnow().isoformat() + 'Z'\<close> at the time of the call.
  The result is the detector after the call and the snapshot returned.
\<close>

definition capture_snapshot ::
  "(string \<Rightarrow> string) \<Rightarrow> string \<Rightarrow> DriftDetector \<Rightarrow> (string \<times> json) list
     \<Rightarrow> error + (DriftDetector \<times> SpecSnapshot)" where
  "capture_snapshot sha256_hex now self doc =
     (let h = fingerprint sha256_hex doc in
      case count_endpoints doc of
        Inl e \<Rightarrow> Inl e
      | Inr n \<Rightarrow>
          (case py_get (dict_get doc ''info'' (JObj [])) ''version'' (JStr ''unknown'') of
             Inl e \<Rightarrow> Inl e
           | Inr ver \<Rightarrow>
               (let snapshot = \<lparr>timestamp = now, spec_hash = h, spec_version = ver,
                                endpoints_count = n, spec_data = doc\<rparr>
                in if snapshots self = [] \<or> spec_hash (last (snapshots self)) \<noteq> h
                   then Inr (save_history (self\<lparr>snapshots := snapshots self @ [snapshot]\<rparr>),
                             snapshot)
                   else Inr (self, last (snapshots self)))))"

text \<open>
  What \<^verbatim>\<open>len(methods)\<close> counts for a path: the keys of its item, whatever they are.
\<close>

definition keys_of :: "json \<Rightarrow> string list" where
  "keys_of item = (case item of JObj ms \<Rightarrow> map fst ms | _ \<Rightarrow> [])"

definition sum_of_key_counts :: "(string \<times> json) list \<Rightarrow> nat" where
  "sum_of_key_counts paths = sum_list (map (\<lambda>(path, item). length (keys_of item)) paths)"

text \<open>
  The endpoint count in the words of the specification: the sum, over the paths, of the
  number of HTTP methods declared for the path. Of the keys of a path item those declare a
  method that name one of the operations of OpenAPI 3.0, in any case of the letters, as
  \<^verbatim>\<open>validate_all_endpoints\<close> reads them; \<^verbatim>\<open>summary\<close>,
  \<^verbatim>\<open>description\<close>, \<^verbatim>\<open>servers\<close>, \<^verbatim>\<open>parameters\<close> and the other keys
  of a path item declare none.
\<close>

definition http_methods :: "string list" where
  "http_methods =
     [''GET'', ''PUT'', ''POST'', ''DELETE'', ''OPTIONS'', ''HEAD'', ''PATCH'', ''TRACE'']"

definition is_http_method :: "string \<Rightarrow> bool" where
  "is_http_method key = (upper key \<in> set http_methods)"

definition methods_of :: "json \<Rightarrow> string list" where
  "methods_of item = filter is_http_method (keys_of item)"

definition sum_of_method_counts :: "(string \<times> json) list \<Rightarrow> nat" where
  "sum_of_method_counts paths =
     sum_list (map (\<lambda>(path, item). length (methods_of item)) paths)"

definition is_dict :: "json \<Rightarrow> bool" where
  "is_dict j = (case j of JObj d \<Rightarrow> True | _ \<Rightarrow> False)"


definition paths_of :: "(string \<times> json) list \<Rightarrow> (string \<times> json) list" where
  "paths_of doc = (case dict_get doc ''paths'' (JObj []) of JObj ps \<Rightarrow> ps | _ \<Rightarrow> [])"

text \<open>
  The shape that \<^verbatim>\<open>capture_snapshot\<close> reads: \<^verbatim>\<open>paths\<close>, when present, maps every
  path to a dictionary, and \<^verbatim>\<open>info\<close>, when present, is a dictionary.
\<close>

definition spec_shape_ok :: "(string \<times> json) list \<Rightarrow> bool" where
  "spec_shape_ok doc =
     (is_dict (dict_get doc ''paths'' (JObj [])) \<and>
      list_all is_dict (map snd (paths_of doc)) \<and>
      is_dict (dict_get doc ''info'' (JObj [])))"

definition snapshot_ok :: "SpecSnapshot \<Rightarrow> bool" where
  "snapshot_ok s =
     (spec_shape_ok (spec_data s) \<and>
      endpoints_count s = sum_of_key_counts (paths_of (spec_data s)))"

text \<open>A sequence of captures, each at its own time.\<close>

fun capture_all ::
  "(string \<Rightarrow> string) \<Rightarrow> DriftDetector \<Rightarrow> (string \<times> (string \<times> json) list) list
     \<Rightarrow> error + DriftDetector" where
  "capture_all sha256_hex self [] = Inr self"
| "capture_all sha256_hex self ((now, doc) # rest) =
     (case capture_snapshot sha256_hex now self doc of
        Inl e \<Rightarrow> Inl e
      | Inr (self', snap) \<Rightarrow> capture_all sha256_hex self' rest)"

definition empty_detector :: DriftDetector where
  "empty_detector = \<lparr>snapshots = [], history_file = []\<rparr>"

definition fingerprints :: "DriftDetector \<Rightarrow> string list" where
  "fingerprints self = map spec_hash (snapshots self)"

section \<open>Comparison of specification trees\<close>

text \<open>The keys of every dictionary of a value are pairwise different.\<close>

fun wf_json :: "json \<Rightarrow> bool" where
  "wf_json (JList xs) = list_all wf_json xs"
| "wf_json (JObj d) = (distinct (map fst d) \<and> list_all (\<lambda>kv. wf_json (snd kv)) d)"
| "wf_json _ = True"

text \<open>
  Equality of two trees whatever the order of the keys: lists are compared in order,
  dictionaries key by key.
\<close>

fun json_equiv :: "json \<Rightarrow> json \<Rightarrow> bool" where
  "json_equiv (JList xs) y =
     (case y of JList ys \<Rightarrow> list_all2 json_equiv xs ys | _ \<Rightarrow> False)"
| "json_equiv (JObj d) y =
     (case y of
        JObj d' \<Rightarrow>
          length d = length d' \<and>
          list_all (\<lambda>kv. case map_of d' (fst kv) of
                            None \<Rightarrow> False
                          | Some w \<Rightarrow> json_equiv (snd kv) w) d
      | _ \<Rightarrow> False)"
| "json_equiv x y = (x = y)"

section \<open>Python's str() and str.replace()\<close>

definition hex2 :: "nat \<Rightarrow> string" where
  "hex2 n = [hex_digit (n div 16), hex_digit (n mod 16)]"

text \<open>
  \<^verbatim>\<open>repr\<close> of a string: quoted with \<^verbatim>\<open>'\<close>, or with \<^verbatim>\<open>"\<close> when the string has a
  \<^verbatim>\<open>'\<close> and no \<^verbatim>\<open>"\<close>; the quote and the backslash are escaped, and so are the code
  points that are not printable.
\<close>

definition repr_char :: "char \<Rightarrow> char \<Rightarrow> string" where
  "repr_char q c =
     (if c = q \<or> c = CHR 0x5C then [CHR 0x5C, c]
      else if c = CHR 0x09 then [CHR 0x5C, CHR ''t'']
      else if c = CHR 0x0A then [CHR 0x5C, CHR ''n'']
      else if c = CHR 0x0D then [CHR 0x5C, CHR ''r'']
      else if (of_char c :: nat) < 32 \<or> (of_char c :: nat) = 127 \<or>
              (128 \<le> (of_char c :: nat) \<and> (of_char c :: nat) \<le> 160) \<or>
              (of_char c :: nat) = 173
        then [CHR 0x5C, CHR ''x''] @ hex2 (of_char c)
      else [c])"

definition repr_str :: "string \<Rightarrow> string" where
  "repr_str s =
     (let q = (if CHR 0x27 \<in> set s \<and> CHR 0x22 \<notin> set s then CHR 0x22 else CHR 0x27)
      in q # concat (map (repr_char q) s) @ [q])"

fun py_repr :: "json \<Rightarrow> string" where
  "py_repr JNull = ''None''"
| "py_repr (JBool b) = (if b then ''True'' else ''False'')"
| "py_repr (JInt i) = str_int i"
| "py_repr (JStr s) = repr_str s"
| "py_repr (JList xs) = ''['' @ join '', '' (map py_repr xs) @ '']''"
| "py_repr (JObj d) =
     ''{'' @ join '', '' (map (\<lambda>(k, v). repr_str k @ '': '' @ py_repr v) d) @ ''}''"

text \<open>\<^verbatim>\<open>str(x)\<close>, which is also what an f-string writes for \<^verbatim>\<open>{x}\<close>.\<close>

definition py_str :: "json \<Rightarrow> string" where
  "py_str j = (case j of JStr s \<Rightarrow> s | _ \<Rightarrow> py_repr j)"

text \<open>
  \<^verbatim>\<open>s.replace(old, new)\<close>: the occurrences of \<open>old\<close> are replaced from the left and
  do not overlap; an empty \<open>old\<close> matches before every character and at the end.
\<close>

function replace :: "string \<Rightarrow> string \<Rightarrow> string \<Rightarrow> string" where
  "replace s old new =
     (if old = [] then new @ concat (map (\<lambda>c. c # new) s)
      else if s = [] then []
      else if take (length old) s = old then new @ replace (drop (length old) s) old new
      else hd s # replace (tl s) old new)"
  by pat_completeness auto
termination
  by (relation "measure (\<lambda>(s, old, new). length s)") auto

declare replace.simps [simp del]

text \<open>\<^verbatim>\<open>type(x).__name__\<close>\<close>

fun type_name :: "json \<Rightarrow> string" where
  "type_name JNull = ''NoneType''"
| "type_name (JBool b) = ''bool''"
| "type_name (JInt i) = ''int''"
| "type_name (JStr s) = ''str''"
| "type_name (JList xs) = ''list''"
| "type_name (JObj d) = ''dict''"

text \<open>
  \<^verbatim>\<open>x in d\<close> for a dictionary with string keys: a list or a dictionary is not
  hashable.
\<close>

fun key_in :: "json \<Rightarrow> (string \<times> json) list \<Rightarrow> error + bool" where
  "key_in (JStr s) d = Inr (map_of d s \<noteq> None)"
| "key_in (JList xs) d = Inl TypeError"
| "key_in (JObj d') d = Inl TypeError"
| "key_in _ d = Inr False"

text \<open>\<^verbatim>\<open>x.items()\<close>\<close>

fun dict_items :: "json \<Rightarrow> error + (string \<times> json) list" where
  "dict_items (JObj d) = Inr d"
| "dict_items _ = Inl AttributeError"

section \<open>api_validator.py\<close>

datatype ValidationSeverity = INFO | WARNING | ERROR | CRITICAL

text \<open>The field \<^verbatim>\<open>method\<close> of the source is \<open>http_method\<close> here.\<close>

record ValidationIssue =
  severity :: ValidationSeverity
  endpoint :: string
  http_method :: string
  message :: string
  expected :: "json option"
  actual :: "json option"

text \<open>
  What \<^verbatim>\<open>requests.request\<close> gives back: the status code, and the body as
  \<^verbatim>\<open>response.json()\<close> parses it, \<open>None\<close> when that raises
  \<^verbatim>\<open>JSONDecodeError\<close>.
\<close>

record Response =
  status_code :: int
  json_body :: "json option"

text \<open>
  The network is a parameter: from the requests sent so far, the method and the URL, either
  the text of a \<^verbatim>\<open>RequestException\<close> or a response.
\<close>

type_synonym network = "(string \<times> string) list \<Rightarrow> string \<Rightarrow> string \<Rightarrow> string + Response"

text \<open>
  The validator; \<open>sent\<close> is not a field of the source: it records the calls of
  \<^verbatim>\<open>requests.request\<close>, method and URL, in order.
\<close>

record APIValidator =
  spec_path :: string
  base_url :: string
  spec :: "(string \<times> json) list"
  issues :: "ValidationIssue list"
  sent :: "(string \<times> string) list"

definition append_issue :: "APIValidator \<Rightarrow> ValidationIssue \<Rightarrow> APIValidator" where
  "append_issue self i = self\<lparr>issues := issues self @ [i]\<rparr>"

text \<open>\<^verbatim>\<open>_prepare_test_path\<close>\<close>

definition prepare_test_path :: "string \<Rightarrow> json \<Rightarrow> error + string" where
  "prepare_test_path path spec_details =
     (case py_get spec_details ''parameters'' (JList []) of
        Inl e \<Rightarrow> Inl e
      | Inr parameters \<Rightarrow>
          (case py_iter parameters of
             Inl e \<Rightarrow> Inl e
           | Inr params \<Rightarrow>
               for_each params
                 (\<lambda>param test_path.
                    case py_get param ''in'' JNull of
                      Inl e \<Rightarrow> Inl e
                    | Inr loc \<Rightarrow>
                        if py_eq loc (JStr ''path'') then
                          (case py_get param ''name'' JNull of
                             Inl e \<Rightarrow> Inl e
                           | Inr param_name \<Rightarrow>
                               (case py_get param ''example'' (JStr ''1'') of
                                  Inl e \<Rightarrow> Inl e
                                | Inr example_value \<Rightarrow>
                                    Inr (replace test_path
                                           (''{'' @ py_str param_name @ ''}'')
                                           (py_str example_value))))
                        else Inr test_path)
                 path))"

text \<open>\<^verbatim>\<open>_validate_status_code\<close>\<close>

definition validate_status_code ::
  "string \<Rightarrow> string \<Rightarrow> Response \<Rightarrow> json \<Rightarrow> APIValidator \<Rightarrow> error + APIValidator" where
  "validate_status_code path meth response spec_details self =
     (case py_get spec_details ''responses'' (JObj []) of
        Inl e \<Rightarrow> Inl e
      | Inr responses \<Rightarrow>
          (case as_dict responses of
             Inl e \<Rightarrow> Inl e
           | Inr rs \<Rightarrow>
               (let code = str_int (status_code response)
                in if map_of rs code = None \<and> map_of rs ''default'' = None
                   then Inr (append_issue self
                          \<lparr>severity = WARNING, endpoint = path, http_method = meth,
                           message = ''Unexpected status code: '' @ code,
                           expected = Some (JList (map (\<lambda>kv. JStr (fst kv)) rs)),
                           actual = Some (JStr code)\<rparr>)
                   else Inr self)))"

text \<open>\<^verbatim>\<open>_validate_schema_structure\<close>\<close>

definition missing_property_issue ::
  "string \<Rightarrow> string \<Rightarrow> json \<Rightarrow> (string \<times> json) list \<Rightarrow> json \<Rightarrow> ValidationIssue" where
  "missing_property_issue path meth required body prop =
     \<lparr>severity = ERROR, endpoint = path, http_method = meth,
      message = ''Missing required property: '' @ py_str prop,
      expected = Some required,
      actual = Some (JList (map (\<lambda>kv. JStr (fst kv)) body))\<rparr>"

definition validate_schema_structure ::
  "string \<Rightarrow> string \<Rightarrow> json \<Rightarrow> json \<Rightarrow> APIValidator \<Rightarrow> error + APIValidator" where
  "validate_schema_structure path meth data schema self =
     (case py_get schema ''type'' JNull of
        Inl e \<Rightarrow> Inl e
      | Inr schema_type \<Rightarrow>
          if py_eq schema_type (JStr ''object'') then
            (case data of
               JObj body \<Rightarrow>
                 (case py_get schema ''required'' (JList []) of
                    Inl e \<Rightarrow> Inl e
                  | Inr required \<Rightarrow>
                      (case py_iter required of
                         Inl e \<Rightarrow> Inl e
                       | Inr props \<Rightarrow>
                           for_each props
                             (\<lambda>prop self'.
                                case key_in prop body of
                                  Inl e \<Rightarrow> Inl e
                                | Inr present \<Rightarrow>
                                    if \<not> present
                                    then Inr (append_issue self'
                                           (missing_property_issue path meth required body prop))
                                    else Inr self')
                             self))
             | _ \<Rightarrow>
                 Inr (append_issue self
                   \<lparr>severity = ERROR, endpoint = path, http_method = meth,
                    message = ''Response should be an object'',
                    expected = Some (JStr ''object''),
                    actual = Some (JStr (type_name data))\<rparr>))
          else if py_eq schema_type (JStr ''array'') then
            (case data of
               JList xs \<Rightarrow> Inr self
             | _ \<Rightarrow>
                 Inr (append_issue self
                   \<lparr>severity = ERROR, endpoint = path, http_method = meth,
                    message = ''Response should be an array'',
                    expected = Some (JStr ''array''),
                    actual = Some (JStr (type_name data))\<rparr>))
          else Inr self)"

text \<open>\<^verbatim>\<open>_validate_response_schema\<close>\<close>

definition validate_response_schema ::
  "string \<Rightarrow> string \<Rightarrow> Response \<Rightarrow> json \<Rightarrow> APIValidator \<Rightarrow> error + APIValidator" where
  "validate_response_schema path meth response spec_details self =
     (case json_body response of
        None \<Rightarrow>
          Inr (append_issue self
            \<lparr>severity = ERROR, endpoint = path, http_method = meth,
             message = ''Response is not valid JSON'', expected = None, actual = None\<rparr>)
      | Some response_data \<Rightarrow>
          (case py_get spec_details ''responses'' (JObj []) of
             Inl e \<Rightarrow> Inl e
           | Inr responses \<Rightarrow>
               (case as_dict responses of
                  Inl e \<Rightarrow> Inl e
                | Inr rs \<Rightarrow>
                    (case map_of rs (str_int (status_code response)) of
                       None \<Rightarrow> Inr self
                     | Some r \<Rightarrow>
                         (case py_get r ''content'' (JObj []) of
                            Inl e \<Rightarrow> Inl e
                          | Inr content \<Rightarrow>
                              (case py_get content ''application/json'' (JObj []) of
                                 Inl e \<Rightarrow> Inl e
                               | Inr json_content \<Rightarrow>
                                   (case py_get json_content ''schema'' (JObj []) of
                                      Inl e \<Rightarrow> Inl e
                                    | Inr schema \<Rightarrow>
                                        if truthy schema
                                        then validate_schema_structure path meth
                                               response_data schema self
                                        else Inr self)))))))"

text \<open>
  \<^verbatim>\<open>_validate_endpoint\<close>. Only a \<^verbatim>\<open>RequestException\<close> is caught; the path is
  prepared before the \<^verbatim>\<open>try\<close>.
\<close>

definition validate_endpoint ::
  "network \<Rightarrow> string \<Rightarrow> string \<Rightarrow> json \<Rightarrow> APIValidator \<Rightarrow> error + APIValidator" where
  "validate_endpoint net path meth spec_details self =
     (case prepare_test_path path spec_details of
        Inl e \<Rightarrow> Inl e
      | Inr test_path \<Rightarrow>
          (let url = base_url self @ test_path;
               self1 = self\<lparr>sent := sent self @ [(meth, url)]\<rparr>
           in case net (sent self) meth url of
                Inl failure \<Rightarrow>
                  Inr (append_issue self1
                    \<lparr>severity = ERROR, endpoint = path, http_method = meth,
                     message = ''Failed to reach endpoint: '' @ failure,
                     expected = None, actual = None\<rparr>)
              | Inr response \<Rightarrow>
                  (case validate_status_code path meth response spec_details self1 of
                     Inl e \<Rightarrow> Inl e
                   | Inr self2 \<Rightarrow>
                       if status_code response < 400
                       then validate_response_schema path meth response spec_details self2
                       else Inr self2)))"

text \<open>
  \<^verbatim>\<open>validate_all_endpoints\<close>. The list returned is \<open>issues\<close> of the validator
  returned.
\<close>

definition validate_all_endpoints :: "network \<Rightarrow> APIValidator \<Rightarrow> error + APIValidator" where
  "validate_all_endpoints net self =
     (let self0 = self\<lparr>issues := []\<rparr>
      in case map_of (spec self0) ''paths'' of
           None \<Rightarrow>
             Inr (append_issue self0
               \<lparr>severity = CRITICAL, endpoint = ''N/A'', http_method = ''N/A'',
                message = ''No paths defined in OpenAPI specification'',
                expected = None, actual = None\<rparr>)
         | Some paths \<Rightarrow>
             (case dict_items paths of
                Inl e \<Rightarrow> Inl e
              | Inr ps \<Rightarrow>
                  for_each ps
                    (\<lambda>(path, methods) self1.
                       case dict_items methods of
                         Inl e \<Rightarrow> Inl e
                       | Inr ms \<Rightarrow>
                           for_each ms
                             (\<lambda>(meth, details) self2.
                                if upper meth \<in> set [''GET'', ''POST'', ''PUT'', ''PATCH'', ''DELETE'']
                                then validate_endpoint net path (upper meth) details self2
                                else Inr self2)
                             self1)
                    self0))"

text \<open>\<^verbatim>\<open>get_summary\<close>: the counts by severity, in the order of the source's dictionary.\<close>

definition count_severity :: "ValidationSeverity \<Rightarrow> ValidationIssue list \<Rightarrow> nat" where
  "count_severity sev xs = length (filter (\<lambda>i. severity i = sev) xs)"

definition get_summary :: "APIValidator \<Rightarrow> (string \<times> nat) list" where
  "get_summary self =
     [(''total'', length (issues self)),
      (''critical'', count_severity CRITICAL (issues self)),
      (''error'', count_severity ERROR (issues self)),
      (''warning'', count_severity WARNING (issues self)),
      (''info'', count_severity INFO (issues self))]"

text \<open>
  The constructor: \<^verbatim>\<open>base_url.rstrip('/')\<close>, the document as loaded, no issues.
\<close>

definition rstrip_slash :: "string \<Rightarrow> string" where
  "rstrip_slash s = rev (dropWhile (\<lambda>c. c = CHR ''/'') (rev s))"

definition new_validator :: "string \<Rightarrow> string \<Rightarrow> (string \<times> json) list \<Rightarrow> APIValidator" where
  "new_validator path url doc =
     \<lparr>spec_path = path, base_url = rstrip_slash url, spec = doc, issues = [], sent = []\<rparr>"

section \<open>What a run of the validator adds\<close>

text \<open>
  The methods of the validator change it only by appending: issues to \<open>issues\<close>,
  requests to \<open>sent\<close>. A network is stateless when its answer does not depend on the
  requests sent before.
\<close>

definition add_effect ::
  "APIValidator \<Rightarrow> ValidationIssue list \<Rightarrow> (string \<times> string) list \<Rightarrow> APIValidator" where
  "add_effect self new reqs = self\<lparr>issues := issues self @ new, sent := sent self @ reqs\<rparr>"

definition stateless :: "network \<Rightarrow> bool" where
  "stateless net = (\<forall>log. net log = net [])"

definition run_effect :: "string \<Rightarrow> (APIValidator \<Rightarrow> error + APIValidator) \<Rightarrow> bool" where
  "run_effect b f =
     (\<exists>r. \<forall>self. base_url self = b \<longrightarrow>
        f self = (case r of Inl e \<Rightarrow> Inl e | Inr (new, reqs) \<Rightarrow> Inr (add_effect self new reqs)))"

section \<open>Required properties, in the words of the specification\<close>

text \<open>
  The names of \<^verbatim>\<open>schema.required\<close> that are not keys of the body, and the schema
  that an operation declares for a status code at
  \<^verbatim>\<open>responses[code].content["application/json"].schema\<close>.
\<close>

fun hashable :: "json \<Rightarrow> bool" where
  "hashable (JList xs) = False"
| "hashable (JObj d) = False"
| "hashable _ = True"

definition missing_props :: "(string \<times> json) list \<Rightarrow> json list \<Rightarrow> json list" where
  "missing_props body props = filter (\<lambda>p. key_in p body = Inr False) props"

definition declared_schema :: "json \<Rightarrow> string \<Rightarrow> json option" where
  "declared_schema details code =
     (case details of
        JObj d \<Rightarrow>
          (case dict_get d ''responses'' (JObj []) of
             JObj rs \<Rightarrow>
               (case map_of rs code of
                  Some (JObj r) \<Rightarrow>
                    (case dict_get r ''content'' (JObj []) of
                       JObj c \<Rightarrow>
                         (case dict_get c ''application/json'' (JObj []) of
                            JObj jc \<Rightarrow> map_of jc ''schema''
                          | _ \<Rightarrow> None)
                     | _ \<Rightarrow> None)
                | _ \<Rightarrow> None)
           | _ \<Rightarrow> None)
      | _ \<Rightarrow> None)"

section \<open>Path templates, in the words of the specification\<close>

text \<open>
  A path template is a sequence of literal pieces and placeholders \<^verbatim>\<open>{name}\<close>. It is
  well formed when no literal piece has a \<^verbatim>\<open>{\<close> and no name has a brace. Materializing
  it under an assignment of values to names writes the value of every placeholder that has
  one and leaves the others as they are.
\<close>

datatype token = Lit string | Hole string

fun token_text :: "token \<Rightarrow> string" where
  "token_text (Lit s) = s"
| "token_text (Hole n) = ''{'' @ n @ ''}''"

definition render :: "token list \<Rightarrow> string" where
  "render ts = concat (map token_text ts)"

fun wf_token :: "token \<Rightarrow> bool" where
  "wf_token (Lit s) = (CHR ''{'' \<notin> set s)"
| "wf_token (Hole n) = (CHR ''{'' \<notin> set n \<and> CHR ''}'' \<notin> set n)"

fun fill :: "(string \<rightharpoonup> string) \<Rightarrow> token \<Rightarrow> string" where
  "fill env (Lit s) = s"
| "fill env (Hole n) = (case env n of Some v \<Rightarrow> v | None \<Rightarrow> ''{'' @ n @ ''}'')"

definition materialize :: "(string \<rightharpoonup> string) \<Rightarrow> token list \<Rightarrow> string" where
  "materialize env ts = concat (map (fill env) ts)"

text \<open>
  The decimal notation of an integer, and the number that a text of digits denotes.
\<close>

definition digit :: "nat \<Rightarrow> char" where
  "digit n = ''0123456789'' ! n"

fun numeral_text :: "nat \<Rightarrow> string" where
  "numeral_text n =
     (if n < 10 then [digit n] else numeral_text (n div 10) @ [digit (n mod 10)])"

declare numeral_text.simps [simp del]

definition decimal :: "int \<Rightarrow> string" where
  "decimal i = (if i < 0 then CHR ''-'' # numeral_text (nat (- i)) else numeral_text (nat i))"

definition decimal_value :: "string \<Rightarrow> nat" where
  "decimal_value s = foldl (\<lambda>a c. 10 * a + (of_char c - 48)) 0 s"

text \<open>
  The example value of a parameter as text: a string as it is, an integer in decimal
  notation, a truth value and the null value as Python writes them. Lists and dictionaries
  are no scalars, and no text is given for them.
\<close>

fun scalar :: "json \<Rightarrow> bool" where
  "scalar (JList xs) = False"
| "scalar (JObj d) = False"
| "scalar _ = True"

fun example_text :: "json \<Rightarrow> string" where
  "example_text (JStr s) = s"
| "example_text (JInt i) = decimal i"
| "example_text (JBool b) = (if b then ''True'' else ''False'')"
| "example_text JNull = ''None''"
| "example_text _ = []"

text \<open>
  The path parameters of an operation are its parameters with \<^verbatim>\<open>in == path\<close> and
  a name, each with the text of its example, \<^verbatim>\<open>"1"\<close> when it declares none. A
  declared parameter is in order when it is a dictionary and, if it is a path parameter, its
  name is a string without \<^verbatim>\<open>}\<close> and its example a scalar whose text has no
  \<^verbatim>\<open>{\<close>.
\<close>

definition in_path :: "(string \<times> json) list \<Rightarrow> bool" where
  "in_path p = (map_of p ''in'' = Some (JStr ''path''))"

definition example_of :: "(string \<times> json) list \<Rightarrow> json" where
  "example_of p = (case map_of p ''example'' of Some v \<Rightarrow> v | None \<Rightarrow> JStr ''1'')"

fun path_params :: "json list \<Rightarrow> (string \<times> string) list" where
  "path_params [] = []"
| "path_params (JObj p # ps) =
     (case map_of p ''name'' of
        Some (JStr n) \<Rightarrow>
          if in_path p then (n, example_text (example_of p)) # path_params ps
          else path_params ps
      | _ \<Rightarrow> path_params ps)"
| "path_params (_ # ps) = path_params ps"

definition declared_ok :: "json \<Rightarrow> bool" where
  "declared_ok param =
     (case param of
        JObj p \<Rightarrow>
          \<not> in_path p \<or>
          (case map_of p ''name'' of
             Some (JStr n) \<Rightarrow>
               CHR ''}'' \<notin> set n \<and> scalar (example_of p) \<and>
               CHR ''{'' \<notin> set (example_text (example_of p))
           | _ \<Rightarrow> False)
      | _ \<Rightarrow> False)"

definition wf_pair :: "string \<times> string \<Rightarrow> bool" where
  "wf_pair nv = (CHR ''}'' \<notin> set (fst nv) \<and> CHR ''{'' \<notin> set (snd nv))"

fun subst :: "string \<Rightarrow> string \<Rightarrow> token \<Rightarrow> token" where
  "subst m v (Lit s) = Lit s"
| "subst m v (Hole n) = (if n = m then Lit v else Hole n)"

section \<open>drift_detector.py: the analysis of changes\<close>

text \<open>
  The result of \<^verbatim>\<open>_analyze_changes\<close>. A breaking change is the dictionary the source
  builds, with its keys in the order of the source.
\<close>

record Changes =
  added_endpoints :: "string list"
  removed_endpoints :: "string list"
  modified_endpoints :: "string list"
  breaking_changes :: "(string \<times> json) list list"

text \<open>\<^verbatim>\<open>_extract_schema\<close>\<close>

definition extract_schema :: "json \<Rightarrow> error + json" where
  "extract_schema response_spec =
     (case py_get response_spec ''content'' (JObj []) of
        Inl e \<Rightarrow> Inl e
      | Inr content \<Rightarrow>
          (case py_get content ''application/json'' (JObj []) of
             Inl e \<Rightarrow> Inl e
           | Inr json_content \<Rightarrow> py_get json_content ''schema'' JNull))"

text \<open>
  \<^verbatim>\<open>{p['name']: p for p in parameters}\<close>: a parameter that is not a dictionary or has
  no \<^verbatim>\<open>name\<close> raises, and so does a name that is not hashable; a name that is already
  a key keeps its place and takes the later parameter.
\<close>

fun name_key :: "json \<Rightarrow> error + json" where
  "name_key (JObj p) =
     (case map_of p ''name'' of
        None \<Rightarrow> Inl KeyError
      | Some n \<Rightarrow> if hashable n then Inr n else Inl TypeError)"
| "name_key _ = Inl TypeError"

fun dict_set :: "(json \<times> json) list \<Rightarrow> json \<Rightarrow> json \<Rightarrow> (json \<times> json) list" where
  "dict_set [] k v = [(k, v)]"
| "dict_set ((k', v') # d) k v =
     (if py_eq k' k then (k', v) # d else (k', v') # dict_set d k v)"

definition params_by_name :: "json list \<Rightarrow> error + (json \<times> json) list" where
  "params_by_name ps =
     for_each ps
       (\<lambda>p acc. case name_key p of Inl e \<Rightarrow> Inl e | Inr n \<Rightarrow> Inr (dict_set acc n p))
       []"

definition has_key :: "(json \<times> json) list \<Rightarrow> json \<Rightarrow> bool" where
  "has_key d k = list_ex (\<lambda>kv. py_eq (fst kv) k) d"

text \<open>
  Sequencing of two steps of which the first may raise.
\<close>

fun and_then :: "error + 'a \<Rightarrow> ('a \<Rightarrow> error + 'b) \<Rightarrow> error + 'b" where
  "and_then (Inl e) f = Inl e"
| "and_then (Inr x) f = f x"

text \<open>
  \<^verbatim>\<open>_check_breaking_changes\<close>: its two loops, then the function.
\<close>

definition required_parameter_removed :: "string \<Rightarrow> string \<Rightarrow> json \<Rightarrow> (string \<times> json) list" where
  "required_parameter_removed meth path name =
     [(''type'', JStr ''required_parameter_removed''),
      (''endpoint'', JStr (upper meth @ '' '' @ path)),
      (''parameter'', name),
      (''severity'', JStr ''critical'')]"

definition response_schema_changed :: "string \<Rightarrow> string \<Rightarrow> string \<Rightarrow> (string \<times> json) list" where
  "response_schema_changed meth path code =
     [(''type'', JStr ''response_schema_changed''),
      (''endpoint'', JStr (upper meth @ '' '' @ path)),
      (''status_code'', JStr code),
      (''severity'', JStr ''warning'')]"

definition removed_parameters_loop ::
  "string \<Rightarrow> string \<Rightarrow> (json \<times> json) list \<Rightarrow> (json \<times> json) list
     \<Rightarrow> (string \<times> json) list list \<Rightarrow> error + (string \<times> json) list list" where
  "removed_parameters_loop path meth old_params new_params =
     for_each old_params
       (\<lambda>item breaking.
          and_then (py_get (snd item) ''required'' (JBool False))
            (\<lambda>required.
               if truthy required \<and> \<not> has_key new_params (fst item)
               then Inr (breaking @ [required_parameter_removed meth path (fst item)])
               else Inr breaking))"

definition changed_schemas_loop ::
  "string \<Rightarrow> string \<Rightarrow> (string \<times> json) list \<Rightarrow> json
     \<Rightarrow> (string \<times> json) list list \<Rightarrow> error + (string \<times> json) list list" where
  "changed_schemas_loop path meth old_rs new_responses =
     for_each old_rs
       (\<lambda>item breaking.
          and_then (as_dict new_responses)
            (\<lambda>new_rs.
               case map_of new_rs (fst item) of
                 None \<Rightarrow> Inr breaking
               | Some new_response \<Rightarrow>
                   and_then (extract_schema (snd item))
                     (\<lambda>old_schema.
                        and_then (extract_schema new_response)
                          (\<lambda>new_schema.
                             if \<not> py_eq old_schema new_schema
                             then Inr (breaking @
                                    [response_schema_changed meth path (fst item)])
                             else Inr breaking))))"

definition check_breaking_changes ::
  "string \<Rightarrow> string \<Rightarrow> json \<Rightarrow> json \<Rightarrow> error + (string \<times> json) list list" where
  "check_breaking_changes path meth old_spec new_spec =
     and_then (py_get old_spec ''parameters'' (JList [])) (\<lambda>old_ps.
     and_then (py_iter old_ps) (\<lambda>old_list.
     and_then (params_by_name old_list) (\<lambda>old_params.
     and_then (py_get new_spec ''parameters'' (JList [])) (\<lambda>new_ps.
     and_then (py_iter new_ps) (\<lambda>new_list.
     and_then (params_by_name new_list) (\<lambda>new_params.
     and_then (removed_parameters_loop path meth old_params new_params []) (\<lambda>breaking1.
     and_then (py_get old_spec ''responses'' (JObj [])) (\<lambda>old_responses.
     and_then (py_get new_spec ''responses'' (JObj [])) (\<lambda>new_responses.
     and_then (as_dict old_responses) (\<lambda>old_rs.
       changed_schemas_loop path meth old_rs new_responses breaking1))))))))))"

text \<open>
  \<^verbatim>\<open>_analyze_changes\<close>: its three loops over the paths, then the function. The
  source walks the removed and the common methods of a path through Python sets, whose
  order of iteration is not that of the dictionaries: \<open>set_order\<close>, a parameter, gives
  the order in which a set with the given elements is walked.
\<close>

definition endpoint_removed :: "string \<Rightarrow> string \<Rightarrow> (string \<times> json) list" where
  "endpoint_removed meth path =
     [(''type'', JStr ''endpoint_removed''),
      (''endpoint'', JStr (upper meth @ '' '' @ path)),
      (''severity'', JStr ''critical'')]"

definition method_removed :: "string \<Rightarrow> string \<Rightarrow> (string \<times> json) list" where
  "method_removed meth path =
     [(''type'', JStr ''method_removed''),
      (''endpoint'', JStr (upper meth @ '' '' @ path)),
      (''severity'', JStr ''critical'')]"

definition added_loop :: "json \<Rightarrow> (string \<times> json) list \<Rightarrow> Changes \<Rightarrow> error + Changes" where
  "added_loop old_paths new_ps =
     for_each new_ps
       (\<lambda>item ch.
          and_then (as_dict old_paths)
            (\<lambda>old_ps.
               if map_of old_ps (fst item) = None
               then and_then (as_dict (snd item))
                      (\<lambda>ms. Inr (ch\<lparr>added_endpoints := added_endpoints ch @
                                    map (\<lambda>m. upper (fst m) @ '' '' @ fst item) ms\<rparr>))
               else Inr ch))"

definition removed_loop ::
  "(string \<times> json) list \<Rightarrow> (string \<times> json) list \<Rightarrow> Changes \<Rightarrow> error + Changes" where
  "removed_loop old_ps new_ps =
     for_each old_ps
       (\<lambda>item ch.
          if map_of new_ps (fst item) = None
          then and_then (as_dict (snd item))
                 (\<lambda>ms. Inr (ch\<lparr>removed_endpoints := removed_endpoints ch @
                                 map (\<lambda>m. upper (fst m) @ '' '' @ fst item) ms,
                               breaking_changes := breaking_changes ch @
                                 map (\<lambda>m. endpoint_removed (fst m) (fst item)) ms\<rparr>))
          else Inr ch)"

definition modified_methods_loop ::
  "string \<Rightarrow> (string \<times> json) list \<Rightarrow> (string \<times> json) list \<Rightarrow> string list
     \<Rightarrow> Changes \<Rightarrow> error + Changes" where
  "modified_methods_loop path old_ms new_ms common_methods =
     for_each common_methods
       (\<lambda>meth ch.
          case map_of old_ms meth of
            None \<Rightarrow> Inl KeyError
          | Some old_op \<Rightarrow>
              (case map_of new_ms meth of
                 None \<Rightarrow> Inl KeyError
               | Some new_op \<Rightarrow>
                   if \<not> py_eq old_op new_op
                   then and_then (check_breaking_changes path meth old_op new_op)
                          (\<lambda>breaking.
                             Inr (ch\<lparr>modified_endpoints := modified_endpoints ch @
                                         [upper meth @ '' '' @ path],
                                      breaking_changes := breaking_changes ch @ breaking\<rparr>))
                   else Inr ch))"

definition modified_loop ::
  "(string list \<Rightarrow> string list) \<Rightarrow> (string \<times> json) list \<Rightarrow> (string \<times> json) list
     \<Rightarrow> Changes \<Rightarrow> error + Changes" where
  "modified_loop set_order old_ps new_ps =
     for_each old_ps
       (\<lambda>item ch.
          case map_of new_ps (fst item) of
            None \<Rightarrow> Inr ch
          | Some new_item \<Rightarrow>
              and_then (dict_items (snd item))
                (\<lambda>old_ms.
                   and_then (dict_items new_item)
                     (\<lambda>new_ms.
                        modified_methods_loop (fst item) old_ms new_ms
                          (set_order (filter (\<lambda>m. map_of new_ms m \<noteq> None) (map fst old_ms)))
                          (ch\<lparr>breaking_changes := breaking_changes ch @
                                map (\<lambda>m. method_removed m (fst item))
                                  (set_order (filter (\<lambda>m. map_of new_ms m = None)
                                     (map fst old_ms)))\<rparr>))))"

definition no_changes :: Changes where
  "no_changes = \<lparr>added_endpoints = [], removed_endpoints = [],
                  modified_endpoints = [], breaking_changes = []\<rparr>"

definition analyze_changes ::
  "(string list \<Rightarrow> string list) \<Rightarrow> (string \<times> json) list \<Rightarrow> (string \<times> json) list
     \<Rightarrow> error + Changes" where
  "analyze_changes set_order old_spec new_spec =
     and_then (as_dict (dict_get new_spec ''paths'' (JObj []))) (\<lambda>new_ps.
     and_then (added_loop (dict_get old_spec ''paths'' (JObj [])) new_ps no_changes) (\<lambda>changes1.
     and_then (as_dict (dict_get old_spec ''paths'' (JObj []))) (\<lambda>old_ps.
     and_then (removed_loop old_ps new_ps changes1) (\<lambda>changes2.
       modified_loop set_order old_ps new_ps changes2))))"

text \<open>
  \<^verbatim>\<open>detect_drift\<close>: nothing to compare with an empty history; otherwise the document
  is captured and analysed against the snapshot that was the last one.
\<close>

datatype drift =
    No_Drift string
  | Drift json json string string Changes

definition detect_drift ::
  "(string \<Rightarrow> string) \<Rightarrow> (string list \<Rightarrow> string list) \<Rightarrow> string \<Rightarrow> DriftDetector
     \<Rightarrow> (string \<times> json) list \<Rightarrow> error + (DriftDetector \<times> drift)" where
  "detect_drift sha256_hex set_order now self current_spec =
     (if snapshots self = []
      then Inr (self, No_Drift ''No previous snapshots to compare against'')
      else
        (let last_snapshot = last (snapshots self)
         in case capture_snapshot sha256_hex now self current_spec of
              Inl e \<Rightarrow> Inl e
            | Inr (self', current_snapshot) \<Rightarrow>
                if spec_hash last_snapshot = spec_hash current_snapshot
                then Inr (self', No_Drift ''No changes detected since last snapshot'')
                else
                  (case analyze_changes set_order (spec_data last_snapshot) current_spec of
                     Inl e \<Rightarrow> Inl e
                   | Inr changes \<Rightarrow>
                       Inr (self', Drift (spec_version last_snapshot)
                                     (spec_version current_snapshot)
                                     (timestamp last_snapshot) (timestamp current_snapshot)
                                     changes))))"

section \<open>Growth of the change lists\<close>

text \<open>
  The loops of the analysis only append to the four lists of the result. The policy of the
  severities: a changed response schema is a warning, a removed endpoint is critical.
\<close>

definition severity_policy :: "(string \<times> json) list \<Rightarrow> bool" where
  "severity_policy bc =
     ((map_of bc ''type'' = Some (JStr ''response_schema_changed'')
         \<longrightarrow> map_of bc ''severity'' = Some (JStr ''warning'')) \<and>
      (map_of bc ''type'' = Some (JStr ''endpoint_removed'')
         \<longrightarrow> map_of bc ''severity'' = Some (JStr ''critical'')))"

definition more_breaking ::
  "(string \<times> json) list list \<Rightarrow> (string \<times> json) list list \<Rightarrow> bool" where
  "more_breaking a b =
     (set a \<subseteq> set b \<and> (\<forall>bc \<in> set b. bc \<in> set a \<or> severity_policy bc))"

definition grows :: "Changes \<Rightarrow> Changes \<Rightarrow> bool" where
  "grows a b =
     (set (added_endpoints a) \<subseteq> set (added_endpoints b) \<and>
      set (removed_endpoints a) \<subseteq> set (removed_endpoints b) \<and>
      set (modified_endpoints a) \<subseteq> set (modified_endpoints b) \<and>
      more_breaking (breaking_changes a) (breaking_changes b))"

section \<open>main.py\<close>

text \<open>
  The commands read files, print and call the network and the LLM: what these steps do is
  the environment of a run, given as the outcome of each step, a value or an exception.
  Of the exceptions only the distinction that \<^verbatim>\<open>main\<close> makes matters:
  \<^verbatim>\<open>KeyboardInterrupt\<close>, or a subclass of \<^verbatim>\<open>Exception\<close>.
\<close>

datatype exn = KeyboardInterrupt | Exception

datatype 'a outcome = Returns 'a | Raises exn

text \<open>
  \<^verbatim>\<open>validate_command\<close>. \<open>validation\<close> is the validator after
  \<^verbatim>\<open>APIValidator(...)\<close>, \<^verbatim>\<open>validate_all_endpoints()\<close> and
  \<^verbatim>\<open>print_report()\<close>; \<open>ai_enabled\<close> is
  \<^verbatim>\<open>args.ai_analysis and os.getenv('OPENAI_API_KEY')\<close>, and the analysis runs inside
  \<^verbatim>\<open>try ... except Exception\<close>; \<open>output_given\<close> is \<^verbatim>\<open>args.output\<close>.
\<close>

record validate_env =
  validation :: "APIValidator outcome"
  ai_enabled :: bool
  ai_analysis :: "unit outcome"
  output_given :: bool
  export_report :: "unit outcome"

definition validate_command :: "validate_env \<Rightarrow> int outcome" where
  "validate_command env =
     (case validation env of
        Raises x \<Rightarrow> Raises x
      | Returns validator \<Rightarrow>
          (case (if ai_enabled env
                 then (case ai_analysis env of
                         Raises KeyboardInterrupt \<Rightarrow> Raises KeyboardInterrupt
                       | Raises Exception \<Rightarrow> Returns ()
                       | Returns u \<Rightarrow> Returns ())
                 else Returns ()) of
             Raises x \<Rightarrow> Raises x
           | Returns u \<Rightarrow>
               (case (if output_given env then export_report env else Returns ()) of
                  Raises x \<Rightarrow> Raises x
                | Returns u' \<Rightarrow>
                    (let summary = get_summary validator
                     in case (map_of summary ''critical'', map_of summary ''error'') of
                          (Some c, Some e) \<Rightarrow> if c > 0 \<or> e > 0 then Returns 1 else Returns 0
                        | _ \<Rightarrow> Raises Exception))))"

text \<open>
  \<^verbatim>\<open>detect_drift_command\<close>. \<open>detection\<close> is the report of
  \<^verbatim>\<open>detector.detect_drift(current_spec)\<close> after the document is loaded and the
  history read; \<open>changelog\<close> is \<^verbatim>\<open>args.changelog\<close>. The command returns 0.
\<close>

record drift_env =
  detection :: "drift outcome"
  changelog :: bool
  changelog_written :: "unit outcome"

definition detect_drift_command :: "drift_env \<Rightarrow> int outcome" where
  "detect_drift_command env =
     (case detection env of
        Raises x \<Rightarrow> Raises x
      | Returns report \<Rightarrow>
          (case (if changelog env then changelog_written env else Returns ()) of
             Raises x \<Rightarrow> Raises x
           | Returns u \<Rightarrow> Returns 0))"

text \<open>
  \<^verbatim>\<open>generate_report_command\<close>. \<open>report_validation\<close> is the validator after
  \<^verbatim>\<open>validate_all_endpoints()\<close>; \<open>api_key\<close> is
  \<^verbatim>\<open>os.getenv('OPENAI_API_KEY')\<close>; \<open>report_written\<close> is the body of the
  \<^verbatim>\<open>try\<close>, which builds the report and writes its two files.
\<close>

record report_env =
  report_validation :: "APIValidator outcome"
  api_key :: bool
  report_written :: "unit outcome"

definition generate_report_command :: "report_env \<Rightarrow> int outcome" where
  "generate_report_command env =
     (case report_validation env of
        Raises x \<Rightarrow> Raises x
      | Returns validator \<Rightarrow>
          if api_key env
          then (case report_written env of
                  Raises KeyboardInterrupt \<Rightarrow> Raises KeyboardInterrupt
                | Raises Exception \<Rightarrow> Returns 1
                | Returns u \<Rightarrow> Returns 0)
          else Returns 1)"

text \<open>
  \<^verbatim>\<open>main\<close>: the value it returns is the exit code of the process
  (\<^verbatim>\<open>sys.exit(main())\<close>).
\<close>

datatype command =
    No_Command
  | Validate validate_env
  | Detect_Drift drift_env
  | Generate_Report report_env

fun exit_code :: "int outcome \<Rightarrow> int" where
  "exit_code (Returns c) = c"
| "exit_code (Raises KeyboardInterrupt) = 130"
| "exit_code (Raises Exception) = 1"

fun main :: "command \<Rightarrow> int" where
  "main No_Command = 1"
| "main (Validate env) = exit_code (validate_command env)"
| "main (Detect_Drift env) = exit_code (detect_drift_command env)"
| "main (Generate_Report env) = exit_code (generate_report_command env)"

text \<open>Critical or error-severity issues among the issues of a validator.\<close>

definition blocking :: "APIValidator \<Rightarrow> bool" where
  "blocking v = list_ex (\<lambda>i. severity i = CRITICAL \<or> severity i = ERROR) (issues v)"

section \<open>The shape that the analysis of changes reads\<close>

text \<open>
  \<^verbatim>\<open>_check_breaking_changes\<close> indexes every parameter by \<^verbatim>\<open>p['name']\<close> and
  reads the responses through \<^verbatim>\<open>.get\<close>: a parameter is in order when it is a
  dictionary with a \<^verbatim>\<open>name\<close> that can be a key, a response when it is a dictionary
  whose \<^verbatim>\<open>content\<close> and \<^verbatim>\<open>application/json\<close> entries, where present, are
  dictionaries, an operation when its \<^verbatim>\<open>parameters\<close> are a list of such parameters
  and its \<^verbatim>\<open>responses\<close> a dictionary of such responses. A document is in order
  when its \<^verbatim>\<open>paths\<close> map every path to a dictionary of such operations.
\<close>

definition parameter_ok :: "json \<Rightarrow> bool" where
  "parameter_ok p =
     (case p of
        JObj d \<Rightarrow> (case map_of d ''name'' of Some n \<Rightarrow> hashable n | None \<Rightarrow> False)
      | _ \<Rightarrow> False)"

definition response_ok :: "json \<Rightarrow> bool" where
  "response_ok r =
     (case r of
        JObj d \<Rightarrow>
          (case dict_get d ''content'' (JObj []) of
             JObj c \<Rightarrow> is_dict (dict_get c ''application/json'' (JObj []))
           | _ \<Rightarrow> False)
      | _ \<Rightarrow> False)"

definition operation_ok :: "json \<Rightarrow> bool" where
  "operation_ok operation =
     (case operation of
        JObj d \<Rightarrow>
          (case dict_get d ''parameters'' (JList []) of
             JList ps \<Rightarrow> list_all parameter_ok ps
           | _ \<Rightarrow> False) \<and>
          (case dict_get d ''responses'' (JObj []) of
             JObj rs \<Rightarrow> list_all (\<lambda>kv. response_ok (snd kv)) rs
           | _ \<Rightarrow> False)
      | _ \<Rightarrow> False)"

definition item_ok :: "json \<Rightarrow> bool" where
  "item_ok item =
     (case item of JObj ms \<Rightarrow> list_all (\<lambda>kv. operation_ok (snd kv)) ms | _ \<Rightarrow> False)"

definition document_ok :: "(string \<times> json) list \<Rightarrow> bool" where
  "document_ok doc =
     (case dict_get doc ''paths'' (JObj []) of
        JObj ps \<Rightarrow> list_all (\<lambda>kv. item_ok (snd kv)) ps
      | _ \<Rightarrow> False)"

section \<open>Documents used as concrete inputs\<close>

definition users_spec :: "(string \<times> json) list" where
  "users_spec =
     [(''info'', JObj [(''version'', JStr ''1.0.0'')]),
      (''paths'', JObj
         [(''/users'', JObj [(''get'', JObj []), (''post'', JObj [])]),
          (''/users/{id}'', JObj [(''get'', JObj [])])])]"

text \<open>A stand-in for the hash in evaluations: the text itself.\<close>

definition plain_hex :: "string \<Rightarrow> string" where
  "plain_hex s = s"


definition users_spec_reordered :: "(string \<times> json) list" where
  "users_spec_reordered =
     [(''paths'', JObj
         [(''/users/{id}'', JObj [(''get'', JObj [])]),
          (''/users'', JObj [(''post'', JObj []), (''get'', JObj [])])]),
      (''info'', JObj [(''version'', JStr ''1.0.0'')])]"

definition empty_paths_spec :: "(string \<times> json) list" where
  "empty_paths_spec =
     [(''openapi'', JStr ''3.0.0''),
      (''info'', JObj [(''version'', JStr ''1.0.0'')]),
      (''paths'', JObj [])]"

definition no_paths_spec :: "(string \<times> json) list" where
  "no_paths_spec =
     [(''openapi'', JStr ''3.0.0''),
      (''info'', JObj [(''version'', JStr ''1.0.0'')])]"

text \<open>A network on which every request fails, and one that answers every request alike.\<close>

definition unreachable :: network where
  "unreachable log meth url = Inl ''connection refused''"

definition answers :: "Response \<Rightarrow> network" where
  "answers r log meth url = Inr r"

definition user_schema :: "(string \<times> json) list" where
  "user_schema = [(''type'', JStr ''object''), (''required'', JList [JStr ''id'', JStr ''name''])]"

definition user_operation :: json where
  "user_operation =
     JObj [(''parameters'', JList
              [JObj [(''name'', JStr ''id''), (''in'', JStr ''path''), (''example'', JStr ''42'')]]),
           (''responses'', JObj
              [(''200'', JObj
                  [(''content'', JObj
                      [(''application/json'', JObj [(''schema'', JObj user_schema)])])])])]"

definition user_response :: Response where
  "user_response = \<lparr>status_code = 200, json_body = Some (JObj [(''id'', JInt 1)])\<rparr>"

definition local_validator :: "(string \<times> json) list \<Rightarrow> APIValidator" where
  "local_validator doc = new_validator ''openapi.json'' ''http://localhost:8000/'' doc"

definition users_only_spec :: "(string \<times> json) list" where
  "users_only_spec =
     [(''info'', JObj [(''version'', JStr ''1.1.0'')]),
      (''paths'', JObj
         [(''/users'', JObj [(''get'', JObj []), (''post'', JObj [])])])]"

definition health_spec :: "(string \<times> json) list" where
  "health_spec =
     [(''openapi'', JStr ''3.0.0''),
      (''info'', JObj [(''version'', JStr ''0.9.0'')]),
      (''paths'', JObj [(''/health'', JObj [])])]"

definition id_schema :: "(string \<times> json) list" where
  "id_schema = [(''type'', JStr ''object''), (''required'', JList [JStr ''id''])]"

definition json_response :: "(string \<times> json) list \<Rightarrow> json" where
  "json_response schema =
     JObj [(''description'', JStr ''A user''),
           (''content'', JObj [(''application/json'', JObj [(''schema'', JObj schema)])])]"

definition get_user :: "(string \<times> json) list \<Rightarrow> json" where
  "get_user schema =
     JObj [(''summary'', JStr ''Get a user''),
           (''responses'', JObj [(''200'', json_response schema)])]"

definition user_api :: "(string \<times> json) list \<Rightarrow> (string \<times> json) list" where
  "user_api schema =
     [(''info'', JObj [(''version'', JStr ''1.0.0'')]),
      (''paths'', JObj [(''/users/{id}'', JObj [(''get'', get_user schema)])])]"

definition items_spec :: "(string \<times> json) list" where
  "items_spec =
     [(''openapi'', JStr ''3.0.0''),
      (''info'', JObj [(''title'', JStr ''Items''), (''version'', JStr ''1.0.0'')]),
      (''paths'', JObj
         [(''/items/{id}'', JObj
             [(''summary'', JStr ''An item''),
              (''parameters'', JList
                 [JObj [(''name'', JStr ''id''), (''in'', JStr ''path''),
                        (''required'', JBool True)]]),
              (''get'', JObj
                 [(''responses'', JObj
                     [(''200'', JObj [(''description'', JStr ''The item'')])])])])])]"

definition nested_parameters :: "json list" where
  "nested_parameters =
     [JObj [(''name'', JStr ''x''), (''in'', JStr ''path''), (''example'', JStr ''{y}'')],
      JObj [(''name'', JStr ''y''), (''in'', JStr ''path''), (''example'', JStr ''2'')]]"

definition pages_parameters :: "json list" where
  "pages_parameters =
     [JObj [(''name'', JStr ''id''), (''in'', JStr ''path''), (''example'', JStr ''42'')],
      JObj [(''name'', JStr ''limit''), (''in'', JStr ''query''), (''example'', JInt 10)],
      JObj [(''name'', JStr ''page''), (''in'', JStr ''path''), (''example'', JInt 307)],
      JObj [(''name'', JStr ''tag''), (''in'', JStr ''path'')]]"

definition pages_operation :: "(string \<times> json) list" where
  "pages_operation =
     [(''summary'', JStr ''Posts of a user''),
      (''parameters'', JList pages_parameters)]"

definition pages_template :: "token list" where
  "pages_template =
     [Lit ''/users/'', Hole ''id'', Lit ''/posts/'', Hole ''post_id'', Lit ''/pages/'',
      Hole ''page'', Lit ''/'', Hole ''tag'', Lit ''/'', Hole ''id'']"

definition ref_operation :: "(string \<times> json) list \<Rightarrow> json" where
  "ref_operation schema =
     JObj [(''parameters'', JList [JObj [(''$ref'', JStr ''#/components/parameters/userId'')]]),
           (''responses'', JObj [(''200'', json_response schema)])]"

definition ref_api :: "(string \<times> json) list \<Rightarrow> (string \<times> json) list" where
  "ref_api schema =
     [(''info'', JObj [(''version'', JStr ''1.0.0'')]),
      (''paths'', JObj [(''/users/{id}'', JObj [(''get'', ref_operation schema)])])]"

definition failed_validator :: APIValidator where
  "failed_validator =
     (local_validator users_spec)
       \<lparr>issues := [\<lparr>severity = ERROR, endpoint = ''/users'', http_method = ''GET'',
                     message = ''Failed to reach endpoint: connection refused'',
                     expected = None, actual = None\<rparr>],
        sent := [(''GET'', ''http://localhost:8000/users'')]\<rparr>"

definition quiet_run :: "APIValidator outcome \<Rightarrow> validate_env" where
  "quiet_run r =
     \<lparr>validation = r, ai_enabled = False, ai_analysis = Returns (),
      output_given = False, export_report = Returns ()\<rparr>"

definition first_run :: drift_env where
  "first_run =
     \<lparr>detection = Returns (No_Drift ''No previous snapshots to compare against''),
      changelog = False, changelog_written = Returns ()\<rparr>"

definition report_run :: "bool \<Rightarrow> report_env" where
  "report_run key =
     \<lparr>report_validation = Returns failed_validator, api_key = key,
      report_written = Returns ()\<rparr>"

section \<open>Properties of the endpoint count\<close>

lemma sum_len_dicts:
  "list_all is_dict (map snd paths) \<Longrightarrow> sum_len (map snd paths) = Inr (sum_of_key_counts paths)"
  by (induction paths)
     (auto simp: sum_of_key_counts_def keys_of_def is_dict_def split: json.splits)

lemma count_endpoints_shape:
  "spec_shape_ok doc \<Longrightarrow> count_endpoints doc = Inr (sum_of_key_counts (paths_of doc))"
  by (auto simp: spec_shape_ok_def count_endpoints_def paths_of_def is_dict_def sum_len_dicts
           split: json.splits)

lemma version_shape:
  "spec_shape_ok doc \<Longrightarrow>
   \<exists>ver. py_get (dict_get doc ''info'' (JObj [])) ''version'' (JStr ''unknown'') = Inr ver"
  by (auto simp: spec_shape_ok_def is_dict_def split: json.splits)

lemma capture_snapshot_cases:
  assumes "spec_shape_ok doc"
  obtains ver where
    "py_get (dict_get doc ''info'' (JObj [])) ''version'' (JStr ''unknown'') = Inr ver"
    "snapshots self = [] \<or> spec_hash (last (snapshots self)) \<noteq> fingerprint sha doc"
    "capture_snapshot sha now self doc =
       Inr (save_history (self\<lparr>snapshots := snapshots self @
              [\<lparr>timestamp = now, spec_hash = fingerprint sha doc, spec_version = ver,
                endpoints_count = sum_of_key_counts (paths_of doc), spec_data = doc\<rparr>]\<rparr>),
            \<lparr>timestamp = now, spec_hash = fingerprint sha doc, spec_version = ver,
              endpoints_count = sum_of_key_counts (paths_of doc), spec_data = doc\<rparr>)"
  | "snapshots self \<noteq> []" "spec_hash (last (snapshots self)) = fingerprint sha doc"
    "capture_snapshot sha now self doc = Inr (self, last (snapshots self))"
proof -
  from version_shape [OF assms] obtain ver where
    v: "py_get (dict_get doc ''info'' (JObj [])) ''version'' (JStr ''unknown'') = Inr ver"
    by blast
  show thesis
  proof (cases "snapshots self = [] \<or> spec_hash (last (snapshots self)) \<noteq> fingerprint sha doc")
    case True
    then show thesis
      using that(1) [OF v] count_endpoints_shape [OF assms] v
      by (simp add: capture_snapshot_def Let_def)
  next
    case False
    then show thesis
      using that(2) count_endpoints_shape [OF assms] v
      by (simp add: capture_snapshot_def Let_def)
  qed
qed

lemma capture_snapshot_key_count:
  assumes "spec_shape_ok doc" and "list_all snapshot_ok (snapshots self)"
  shows "\<exists>self' snap.
           capture_snapshot sha now self doc = Inr (self', snap) \<and>
           endpoints_count snap = sum_of_key_counts (paths_of (spec_data snap)) \<and>
           list_all snapshot_ok (snapshots self') \<and>
           (snapshots self = [] \<or> spec_hash (last (snapshots self)) \<noteq> fingerprint sha doc
              \<longrightarrow> spec_data snap = doc \<and> snapshots self' = snapshots self @ [snap])"
proof (rule capture_snapshot_cases [OF assms(1), of self sha now])
  fix ver
  assume "capture_snapshot sha now self doc =
       Inr (save_history (self\<lparr>snapshots := snapshots self @
              [\<lparr>timestamp = now, spec_hash = fingerprint sha doc, spec_version = ver,
                endpoints_count = sum_of_key_counts (paths_of doc), spec_data = doc\<rparr>]\<rparr>),
            \<lparr>timestamp = now, spec_hash = fingerprint sha doc, spec_version = ver,
              endpoints_count = sum_of_key_counts (paths_of doc), spec_data = doc\<rparr>)"
  then show ?thesis
    using assms by (simp add: save_history_def snapshot_ok_def)
next
  assume ne: "snapshots self \<noteq> []"
    and same: "spec_hash (last (snapshots self)) = fingerprint sha doc"
    and c: "capture_snapshot sha now self doc = Inr (self, last (snapshots self))"
  from ne assms(2) have "snapshot_ok (last (snapshots self))"
    by (simp add: list_all_iff)
  then show ?thesis
    using c ne same assms(2) by (simp add: snapshot_ok_def)
qed

text \<open>
  When every key of every path item is an HTTP method, the keys counted are the methods.
\<close>

lemma sum_of_key_counts_methods:
  "list_all (\<lambda>item. list_all is_http_method (keys_of (snd item))) paths \<Longrightarrow>
   sum_of_key_counts paths = sum_of_method_counts paths"
  by (induction paths)
     (auto simp: sum_of_key_counts_def sum_of_method_counts_def methods_of_def list_all_iff
           filter_id_conv)

lemma http_method_keys:
  "is_http_method ''get''" "\<not> is_http_method ''summary''" "\<not> is_http_method ''parameters''"
  unfolding is_http_method_def http_methods_def by code_simp+

text \<open>
  C8. The stored endpoint count is said to be the sum, over the paths, of the number of
  HTTP methods declared for the path. \<^verbatim>\<open>capture_snapshot\<close> sums
  \<^verbatim>\<open>len(methods)\<close>, the number of keys of every path item: for a path item with a
  summary, parameters of the path and the one method \<^verbatim>\<open>get\<close> the snapshot stores
  the count 3, and the number of HTTP methods declared is 1.
\<close>

theorem endpoints_count_counts_every_key:
  "(case capture_snapshot plain_hex ''2024-05-01T10:00:00Z'' empty_detector items_spec of
      Inl e \<Rightarrow> False
    | Inr (self', snap) \<Rightarrow> endpoints_count snap = 3 \<and> snapshots self' = [snap]) \<and>
   sum_of_method_counts (paths_of items_spec) = 1"
proof -
  have a: "spec_shape_ok items_spec"
    by (simp add: spec_shape_ok_def items_spec_def dict_get_def paths_of_def is_dict_def)
  have b: "sum_of_key_counts (paths_of items_spec) = 3"
    by (simp add: sum_of_key_counts_def paths_of_def items_spec_def dict_get_def keys_of_def)
  have c: "sum_of_method_counts (paths_of items_spec) = 1"
    by (simp add: sum_of_method_counts_def paths_of_def items_spec_def dict_get_def
        methods_of_def keys_of_def http_method_keys)
  have d: "py_get (dict_get items_spec ''info'' (JObj [])) ''version'' (JStr ''unknown'')
             = Inr (JStr ''1.0.0'')"
    by (simp add: items_spec_def dict_get_def)
  have "capture_snapshot plain_hex ''2024-05-01T10:00:00Z'' empty_detector items_spec =
          Inr (save_history (empty_detector\<lparr>snapshots :=
                 [\<lparr>timestamp = ''2024-05-01T10:00:00Z'',
                   spec_hash = fingerprint plain_hex items_spec,
                   spec_version = JStr ''1.0.0'', endpoints_count = 3,
                   spec_data = items_spec\<rparr>]\<rparr>),
               \<lparr>timestamp = ''2024-05-01T10:00:00Z'',
                 spec_hash = fingerprint plain_hex items_spec,
                 spec_version = JStr ''1.0.0'', endpoints_count = 3, spec_data = items_spec\<rparr>)"
    using count_endpoints_shape [OF a] b d
    by (simp add: capture_snapshot_def Let_def empty_detector_def)
  with c show ?thesis
    by (simp add: save_history_def)
qed

section \<open>Deduplication of captures\<close>

lemma capture_snapshot_twice:
  assumes "spec_shape_ok doc"
  shows "\<exists>self1 s1.
           capture_snapshot sha t1 self doc = Inr (self1, s1) \<and>
           capture_snapshot sha t2 self1 doc = Inr (self1, s1) \<and>
           snapshots self1 \<noteq> [] \<and> s1 = last (snapshots self1) \<and>
           spec_hash s1 = fingerprint sha doc \<and>
           (snapshots self = [] \<or> spec_hash (last (snapshots self)) \<noteq> fingerprint sha doc
              \<longrightarrow> snapshots self1 = snapshots self @ [s1]) \<and>
           (snapshots self \<noteq> [] \<and> spec_hash (last (snapshots self)) = fingerprint sha doc
              \<longrightarrow> self1 = self) \<and>
           (distinct_adj (fingerprints self) \<longrightarrow> distinct_adj (fingerprints self1))"
proof (rule capture_snapshot_cases [OF assms, of self sha t1])
  fix ver
  let ?s = "\<lparr>timestamp = t1, spec_hash = fingerprint sha doc, spec_version = ver,
             endpoints_count = sum_of_key_counts (paths_of doc), spec_data = doc\<rparr>"
  let ?d = "save_history (self\<lparr>snapshots := snapshots self @ [?s]\<rparr>)"
  assume fresh: "snapshots self = [] \<or> spec_hash (last (snapshots self)) \<noteq> fingerprint sha doc"
    and c1: "capture_snapshot sha t1 self doc = Inr (?d, ?s)"
  have snaps_d: "snapshots ?d = snapshots self @ [?s]"
    by (simp add: save_history_def)
  have last_d: "snapshots ?d \<noteq> []" "last (snapshots ?d) = ?s"
    by (simp_all add: save_history_def)
  have c2: "capture_snapshot sha t2 ?d doc = Inr (?d, ?s)"
  proof (rule capture_snapshot_cases [OF assms, of ?d sha t2])
    fix ver'
    assume "snapshots ?d = [] \<or> spec_hash (last (snapshots ?d)) \<noteq> fingerprint sha doc"
    with last_d show ?thesis by simp
  next
    assume "capture_snapshot sha t2 ?d doc = Inr (?d, last (snapshots ?d))"
    with last_d show ?thesis by simp
  qed
  have adj: "distinct_adj (fingerprints self) \<longrightarrow> distinct_adj (fingerprints ?d)"
    using fresh
    by (auto simp: fingerprints_def save_history_def distinct_adj_append_iff last_map)
  have "capture_snapshot sha t1 self doc = Inr (?d, ?s) \<and>
        capture_snapshot sha t2 ?d doc = Inr (?d, ?s) \<and>
        snapshots ?d \<noteq> [] \<and> ?s = last (snapshots ?d) \<and>
        spec_hash ?s = fingerprint sha doc \<and>
        (snapshots self = [] \<or> spec_hash (last (snapshots self)) \<noteq> fingerprint sha doc
           \<longrightarrow> snapshots ?d = snapshots self @ [?s]) \<and>
        (snapshots self \<noteq> [] \<and> spec_hash (last (snapshots self)) = fingerprint sha doc
           \<longrightarrow> ?d = self) \<and>
        (distinct_adj (fingerprints self) \<longrightarrow> distinct_adj (fingerprints ?d))"
  proof (intro conjI)
    show "snapshots self \<noteq> [] \<and> spec_hash (last (snapshots self)) = fingerprint sha doc
            \<longrightarrow> ?d = self"
      using fresh by blast
  qed (use c1 c2 last_d snaps_d adj in simp_all)
  then show ?thesis by blast
next
  assume ne: "snapshots self \<noteq> []"
    and same: "spec_hash (last (snapshots self)) = fingerprint sha doc"
    and c1: "capture_snapshot sha t1 self doc = Inr (self, last (snapshots self))"
  have c2: "capture_snapshot sha t2 self doc = Inr (self, last (snapshots self))"
  proof (rule capture_snapshot_cases [OF assms, of self sha t2])
    fix ver'
    assume "snapshots self = [] \<or> spec_hash (last (snapshots self)) \<noteq> fingerprint sha doc"
    with ne same show ?thesis by simp
  next
    assume "capture_snapshot sha t2 self doc = Inr (self, last (snapshots self))"
    then show ?thesis .
  qed
  show ?thesis
    using c1 c2 ne same by (intro exI [of _ self] exI [of _ "last (snapshots self)"]) simp
qed

lemma capture_all_distinct_adj:
  "list_all (\<lambda>c. spec_shape_ok (snd c)) caps \<Longrightarrow> distinct_adj (fingerprints self) \<Longrightarrow>
   \<exists>self'. capture_all sha self caps = Inr self' \<and> distinct_adj (fingerprints self')"
proof (induction caps arbitrary: self)
  case Nil
  then show ?case by simp
next
  case (Cons c caps)
  obtain now doc where c: "c = (now, doc)" by (cases c)
  with Cons.prems have ok: "spec_shape_ok doc" by simp
  from capture_snapshot_twice [OF ok, of sha now self now] Cons.prems(2)
  obtain self1 s1 where
    "capture_snapshot sha now self doc = Inr (self1, s1)" "distinct_adj (fingerprints self1)"
    by blast
  moreover from Cons.prems have "list_all (\<lambda>c. spec_shape_ok (snd c)) caps" by simp
  ultimately show ?case
    using Cons.IH [of self1] c by simp
qed

text \<open>
  C2. A capture of a specification of the declared shape returns, and a second capture of
  the same content right after it, at any later time, changes nothing: it returns the
  snapshot of the first capture, which is the last of the store, with the time stamp of
  the first capture. Of the two calls the first appends one snapshot when the store is
  empty or ends with another fingerprint, and the second appends none. No capture makes
  two neighbours of the history share a fingerprint, so after any sequence of captures,
  from the empty store or from a history without such neighbours, the history has none.
\<close>

theorem capture_snapshot_dedup:
  assumes "spec_shape_ok doc" and "list_all (\<lambda>c. spec_shape_ok (snd c)) caps"
  shows "(\<exists>self1 s1.
            capture_snapshot sha t1 self doc = Inr (self1, s1) \<and>
            capture_snapshot sha t2 self1 doc = Inr (self1, s1) \<and>
            snapshots self1 \<noteq> [] \<and> s1 = last (snapshots self1) \<and>
            spec_hash s1 = fingerprint sha doc \<and>
            (snapshots self = [] \<or> spec_hash (last (snapshots self)) \<noteq> fingerprint sha doc
               \<longrightarrow> snapshots self1 = snapshots self @ [s1]) \<and>
            (snapshots self \<noteq> [] \<and> spec_hash (last (snapshots self)) = fingerprint sha doc
               \<longrightarrow> self1 = self) \<and>
            (distinct_adj (fingerprints self) \<longrightarrow> distinct_adj (fingerprints self1))) \<and>
         (distinct_adj (fingerprints self) \<longrightarrow>
            (\<exists>self'. capture_all sha self caps = Inr self' \<and> distinct_adj (fingerprints self'))) \<and>
         (\<exists>self'. capture_all sha empty_detector caps = Inr self' \<and>
                   distinct_adj (fingerprints self'))"
proof -
  have "distinct_adj (fingerprints empty_detector)"
    by (simp add: fingerprints_def empty_detector_def)
  then show ?thesis
    using capture_snapshot_twice [OF assms(1), of sha t1 self t2]
      capture_all_distinct_adj [OF assms(2), of self sha]
      capture_all_distinct_adj [OF assms(2), of empty_detector sha]
    by blast
qed

theorem capture_snapshot_dedup_witness:
  "spec_shape_ok users_spec \<and>
   list_all (\<lambda>c. spec_shape_ok (snd c))
     [(''2024-05-01T10:00:00Z'', users_spec), (''2024-05-01T10:05:00Z'', users_spec)] \<and>
   (\<exists>self1 s1.
      capture_snapshot plain_hex ''2024-05-01T10:00:00Z'' empty_detector users_spec
        = Inr (self1, s1) \<and>
      capture_snapshot plain_hex ''2024-05-01T10:05:00Z'' self1 users_spec = Inr (self1, s1) \<and>
      snapshots self1 = [s1]) \<and>
   (\<exists>self'.
      capture_all plain_hex empty_detector
        [(''2024-05-01T10:00:00Z'', users_spec), (''2024-05-01T10:05:00Z'', users_spec)]
        = Inr self' \<and>
      distinct_adj (fingerprints self'))"
proof -
  have a: "spec_shape_ok users_spec"
    by (simp add: spec_shape_ok_def users_spec_def dict_get_def paths_of_def is_dict_def)
  then have b: "list_all (\<lambda>c. spec_shape_ok (snd c))
     [(''2024-05-01T10:00:00Z'', users_spec), (''2024-05-01T10:05:00Z'', users_spec)]"
    by simp
  have e: "snapshots empty_detector = []"
    by (simp add: empty_detector_def)
  show ?thesis
    using capture_snapshot_dedup [OF a b, of plain_hex "''2024-05-01T10:00:00Z''"
        empty_detector "''2024-05-01T10:05:00Z''"] a b e
    by (simp only: append_Nil simp_thms) blast
qed

section \<open>The fingerprint\<close>

lemma filter_key_distinct:
  "distinct (map fst zs) \<Longrightarrow> k \<in> set zs \<Longrightarrow> filter (\<lambda>x. fst k = fst x) zs = [k]"
proof (induction zs)
  case Nil
  then show ?case by simp
next
  case (Cons z zs)
  from Cons.prems have nz: "fst z \<notin> fst ` set zs" and dz: "distinct (map fst zs)"
    by simp_all
  show ?case
  proof (cases "k = z")
    case True
    with nz have "\<forall>x\<in>set zs. fst k \<noteq> fst x" by auto
    then have "filter (\<lambda>x. fst k = fst x) zs = []" by (simp add: filter_empty_conv)
    with True show ?thesis by simp
  next
    case False
    with Cons.prems have kz: "k \<in> set zs" by simp
    with nz have "fst k \<noteq> fst z" by (metis image_eqI)
    with Cons.IH [OF dz kz] show ?thesis by simp
  qed
qed

lemma sort_key_fst_unique:
  assumes "mset xs = mset ys" and "distinct (map fst xs)"
  shows "sort_key fst xs = sort_key fst ys"
proof (rule properties_for_sort_key)
  show "mset (sort_key fst ys) = mset xs" using assms by simp
  show "sorted (map fst (sort_key fst ys))" by simp
  fix k assume k: "k \<in> set (sort_key fst ys)"
  have "mset (map fst (sort_key fst ys)) = mset (map fst xs)" using assms by simp
  then have d: "distinct (map fst (sort_key fst ys))"
    using assms(2) by (metis mset_eq_imp_distinct_iff)
  have kx: "k \<in> set xs" using k assms(1) by (metis mset_eq_setD set_sort)
  show "filter (\<lambda>x. fst k = fst x) (sort_key fst ys) = filter (\<lambda>x. fst k = fst x) xs"
    using filter_key_distinct [OF d k] filter_key_distinct [OF assms(2) kx] by simp
qed

lemma dumps_equiv:
  "wf_json a \<Longrightarrow> wf_json b \<Longrightarrow> json_equiv a b \<Longrightarrow> dumps a = dumps b"
proof (induction a arbitrary: b)
  case (JList xs)
  then obtain ys where b: "b = JList ys" and l: "list_all2 json_equiv xs ys"
    by (auto split: json.splits)
  from JList.prems b have wy: "list_all wf_json ys" by simp
  from JList.prems have wx: "list_all wf_json xs" by simp
  from l wx wy JList.IH have "map dumps xs = map dumps ys"
  proof (induction xs ys rule: list_all2_induct)
    case Nil
    then show ?case by simp
  next
    case (Cons x xs y ys)
    then show ?case by simp
  qed
  with b show ?case by simp
next
  case (JObj d)
  then obtain d' where b: "b = JObj d'" and len: "length d = length d'"
    and all: "list_all (\<lambda>kv. case map_of d' (fst kv) of
                            None \<Rightarrow> False
                          | Some w \<Rightarrow> json_equiv (snd kv) w) d"
    by (auto split: json.splits)
  let ?g = "\<lambda>(k, v). (k, dumps v)"
  from JObj.prems b have dd: "distinct (map fst d)" "distinct (map fst d')"
    and wd: "list_all (\<lambda>kv. wf_json (snd kv)) d" "list_all (\<lambda>kv. wf_json (snd kv)) d'"
    by simp_all
  have fst_g: "\<And>zs. map fst (map ?g zs) = map fst zs"
    by (simp add: case_prod_unfold comp_def)
  have dist: "distinct (map ?g d)" "distinct (map ?g d')"
    using dd fst_g by (metis distinct_map)+
  have sub: "set (map ?g d) \<subseteq> set (map ?g d')"
  proof
    fix p assume "p \<in> set (map ?g d)"
    then obtain k v where kv: "(k, v) \<in> set d" and p: "p = (k, dumps v)" by auto
    from all kv obtain w where w: "map_of d' k = Some w" and e: "json_equiv v w"
      by (force simp: list_all_iff split: option.splits)
    from w have kw: "(k, w) \<in> set d'" by (rule map_of_SomeD)
    from wd kv kw have "wf_json v" "wf_json w" by (auto simp: list_all_iff)
    with JObj.IH kv e have "dumps v = dumps w" by fastforce
    with kw p show "p \<in> set (map ?g d')" by force
  qed
  define gd where "gd = map ?g d"
  define gd' where "gd' = map ?g d'"
  have dist': "distinct gd" "distinct gd'" and sub': "set gd \<subseteq> set gd'"
    and len': "length gd = length gd'"
    using dist sub len by (simp_all only: gd_def gd'_def length_map)
  have dfst: "distinct (map fst gd)"
    by (simp only: gd_def fst_g dd(1))
  have "card (set gd) = card (set gd')"
    using dist' len' by (simp only: distinct_card)
  with sub' have "set gd = set gd'"
    by (simp add: card_subset_eq)
  then have "mset gd = mset gd'"
    using set_eq_iff_mset_eq_distinct [OF dist'] by (rule rev_iffD1)
  then have "sort_key fst gd = sort_key fst gd'"
    using dfst by (rule sort_key_fst_unique)
  then have "sort_key fst (map ?g d) = sort_key fst (map ?g d')"
    by (simp only: gd_def gd'_def)
  with b show ?case by simp
qed simp_all

lemma fingerprint_range: "length (fingerprint sha doc) \<le> 12"
  by (simp add: fingerprint_def)

text \<open>
  The claim C7 says that any single changed field changes the fingerprint. Whatever the hash
  function, the fingerprint keeps twelve characters of it, and the documents that differ in
  the one field \<^verbatim>\<open>openapi\<close> are infinitely many: no hash function makes all their
  fingerprints different.
\<close>

theorem fingerprint_injective_counterexample:
  "\<not> (\<exists>sha. \<forall>m n. m \<noteq> n \<longrightarrow>
         fingerprint sha [(''openapi'', JInt m)] \<noteq> fingerprint sha [(''openapi'', JInt n)])"
proof
  assume "\<exists>sha. \<forall>m n. m \<noteq> n \<longrightarrow>
         fingerprint sha [(''openapi'', JInt m)] \<noteq> fingerprint sha [(''openapi'', JInt n)]"
  then obtain sha where inj: "\<forall>m n. m \<noteq> n \<longrightarrow>
         fingerprint sha [(''openapi'', JInt m)] \<noteq> fingerprint sha [(''openapi'', JInt n)]"
    by blast
  let ?f = "\<lambda>m :: int. fingerprint sha [(''openapi'', JInt m)]"
  have "inj ?f" using inj by (auto simp: inj_on_def)
  moreover have sub: "range ?f \<subseteq> {xs. set xs \<subseteq> (UNIV :: char set) \<and> length xs \<le> 12}"
    using fingerprint_range by auto
  have fin: "finite {xs. set xs \<subseteq> (UNIV :: char set) \<and> length xs \<le> 12}"
    by (rule finite_lists_length_le) simp
  have "finite (range ?f)"
    by (rule finite_subset [OF sub fin])
  ultimately have "finite (UNIV :: int set)" by (rule finite_imageD [rotated])
  then show False by (simp add: infinite_UNIV_int)
qed


text \<open>
  C7, amended. The fingerprint is the first twelve characters of the hash of the
  serialisation with sorted keys, so two specification trees that are equal whatever the
  order of their keys have the same fingerprint. (Different trees may share one.)
\<close>

theorem fingerprint_key_order:
  assumes "wf_json (JObj a)" and "wf_json (JObj b)" and "json_equiv (JObj a) (JObj b)"
  shows "fingerprint sha a = fingerprint sha b \<and>
         fingerprint sha a = take 12 (sha (dumps (JObj a))) \<and>
         length (fingerprint sha a) \<le> 12"
  using dumps_equiv [OF assms] by (simp add: fingerprint_def)

theorem fingerprint_key_order_witness:
  "wf_json (JObj users_spec) \<and> wf_json (JObj users_spec_reordered) \<and>
   json_equiv (JObj users_spec) (JObj users_spec_reordered) \<and>
   users_spec \<noteq> users_spec_reordered \<and>
   (\<forall>sha. fingerprint sha users_spec = fingerprint sha users_spec_reordered)"
proof -
  have a: "wf_json (JObj users_spec)"
    by (simp add: users_spec_def)
  have b: "wf_json (JObj users_spec_reordered)"
    by (simp add: users_spec_reordered_def)
  have c: "json_equiv (JObj users_spec) (JObj users_spec_reordered)"
    by (simp add: users_spec_def users_spec_reordered_def)
  have d: "users_spec \<noteq> users_spec_reordered"
    by (simp add: users_spec_def users_spec_reordered_def)
  show ?thesis
    using fingerprint_key_order [OF a b c] a b c d by blast
qed

section \<open>Validation of a document without paths\<close>

text \<open>
  The claim C1 says that a document whose \<^verbatim>\<open>paths\<close> mapping is present but empty yields
  exactly one critical issue. The guard of \<^verbatim>\<open>validate_all_endpoints\<close> is
  \<^verbatim>\<open>'paths' not in self.spec\<close>: with the key present and the mapping empty the loop runs
  over nothing and the list returned is empty.
\<close>

theorem validate_empty_paths_counterexample:
  "\<exists>v. validate_all_endpoints unreachable
          (new_validator ''openapi.json'' ''http://localhost:8000/'' empty_paths_spec) = Inr v \<and>
       issues v = [] \<and> sent v = []"
  by (simp add: validate_all_endpoints_def new_validator_def empty_paths_spec_def)

text \<open>
  C1, amended. For a document that has no \<^verbatim>\<open>paths\<close> key the validation returns exactly
  one issue, of severity critical, and sends no request; for a document whose \<^verbatim>\<open>paths\<close>
  mapping is present and empty it returns no issue, and sends no request either.
\<close>

theorem validate_without_paths:
  "(map_of (spec self) ''paths'' = None \<longrightarrow>
      (\<exists>v. validate_all_endpoints net self = Inr v \<and>
           issues v =
             [\<lparr>severity = CRITICAL, endpoint = ''N/A'', http_method = ''N/A'',
               message = ''No paths defined in OpenAPI specification'',
               expected = None, actual = None\<rparr>] \<and>
           length (issues v) = 1 \<and> list_all (\<lambda>i. severity i = CRITICAL) (issues v) \<and>
           sent v = sent self)) \<and>
   (map_of (spec self) ''paths'' = Some (JObj []) \<longrightarrow>
      (\<exists>v. validate_all_endpoints net self = Inr v \<and> issues v = [] \<and> sent v = sent self))"
  by (simp add: validate_all_endpoints_def append_issue_def)

theorem validate_without_paths_witness:
  "map_of (spec (new_validator ''openapi.json'' ''http://localhost:8000/'' no_paths_spec))
     ''paths'' = None \<and>
   map_of (spec (new_validator ''openapi.json'' ''http://localhost:8000/'' empty_paths_spec))
     ''paths'' = Some (JObj []) \<and>
   (\<exists>v. validate_all_endpoints unreachable
           (new_validator ''openapi.json'' ''http://localhost:8000/'' no_paths_spec) = Inr v \<and>
        length (issues v) = 1 \<and> list_all (\<lambda>i. severity i = CRITICAL) (issues v) \<and>
        sent v = []) \<and>
   (\<exists>v. validate_all_endpoints unreachable
           (new_validator ''openapi.json'' ''http://localhost:8000/'' empty_paths_spec) = Inr v \<and>
        issues v = [] \<and> sent v = [])"
proof -
  let ?a = "new_validator ''openapi.json'' ''http://localhost:8000/'' no_paths_spec"
  let ?b = "new_validator ''openapi.json'' ''http://localhost:8000/'' empty_paths_spec"
  have a: "map_of (spec ?a) ''paths'' = None"
    by (simp add: new_validator_def no_paths_spec_def)
  have b: "map_of (spec ?b) ''paths'' = Some (JObj [])"
    by (simp add: new_validator_def empty_paths_spec_def)
  have s: "sent ?a = []" "sent ?b = []"
    by (simp_all add: new_validator_def)
  from validate_without_paths [of ?a unreachable] a
  have 1: "\<exists>v. validate_all_endpoints unreachable ?a = Inr v \<and>
        length (issues v) = 1 \<and> list_all (\<lambda>i. severity i = CRITICAL) (issues v) \<and>
        sent v = []"
    unfolding s by blast
  from validate_without_paths [of ?b unreachable] b
  have 2: "\<exists>v. validate_all_endpoints unreachable ?b = Inr v \<and> issues v = [] \<and> sent v = []"
    unfolding s by blast
  from a b 1 2 show ?thesis by blast
qed

section \<open>The issue list of a run\<close>

lemma add_effect_simps [simp]:
  "add_effect self [] [] = self"
  "base_url (add_effect self new reqs) = base_url self"
  "spec (add_effect self new reqs) = spec self"
  "issues (add_effect self new reqs) = issues self @ new"
  "sent (add_effect self new reqs) = sent self @ reqs"
  "add_effect (add_effect self new reqs) new' reqs' = add_effect self (new @ new') (reqs @ reqs')"
  by (simp_all add: add_effect_def)

lemma run_effectI:
  "(\<And>self. base_url self = b \<Longrightarrow>
      f self = (case r of Inl e \<Rightarrow> Inl e | Inr (new, reqs) \<Rightarrow> Inr (add_effect self new reqs)))
   \<Longrightarrow> run_effect b f"
  unfolding run_effect_def by blast

lemma run_effect_return: "run_effect b (\<lambda>self. Inr self)"
  by (rule run_effectI [where r = "Inr ([], [])"]) simp

lemma run_effect_raise: "run_effect b (\<lambda>self. Inl e)"
  by (rule run_effectI [where r = "Inl e"]) simp

lemma run_effect_issue: "run_effect b (\<lambda>self. Inr (append_issue self i))"
  by (rule run_effectI [where r = "Inr ([i], [])"]) (simp add: add_effect_def append_issue_def)

lemma run_effect_bind:
  assumes "run_effect b f" and "run_effect b g"
  shows "run_effect b (\<lambda>self. case f self of Inl e \<Rightarrow> Inl e | Inr self' \<Rightarrow> g self')"
proof -
  from assms obtain rf rg where
    f: "\<And>self. base_url self = b \<Longrightarrow>
        f self = (case rf of Inl e \<Rightarrow> Inl e | Inr (new, reqs) \<Rightarrow> Inr (add_effect self new reqs))"
    and g: "\<And>self. base_url self = b \<Longrightarrow>
        g self = (case rg of Inl e \<Rightarrow> Inl e | Inr (new, reqs) \<Rightarrow> Inr (add_effect self new reqs))"
    unfolding run_effect_def by blast
  show ?thesis
  proof (cases rf)
    case (Inl e)
    show ?thesis
      by (rule run_effectI [where r = "Inl e"]) (simp add: f Inl)
  next
    case (Inr p)
    obtain new reqs where p: "p = (new, reqs)" by (cases p)
    show ?thesis
    proof (cases rg)
      case (Inl e)
      show ?thesis
        by (rule run_effectI [where r = "Inl e"]) (simp add: f g Inr p Inl)
    next
      case (Inr q)
      obtain new' reqs' where q: "q = (new', reqs')" by (cases q)
      show ?thesis
        by (rule run_effectI [where r = "Inr (new @ new', reqs @ reqs')"])
           (simp add: f g \<open>rf = Inr p\<close> p Inr q)
    qed
  qed
qed

lemma run_effect_for_each:
  "(\<And>x. x \<in> set xs \<Longrightarrow> run_effect b (body x)) \<Longrightarrow> run_effect b (for_each xs body)"
proof (induction xs)
  case Nil
  show ?case using run_effect_return [of b] by (simp add: for_each.simps [abs_def])
next
  case (Cons x xs)
  have 1: "run_effect b (body x)" using Cons.prems by simp
  have 2: "run_effect b (for_each xs body)" using Cons by simp
  have "for_each (x # xs) body =
        (\<lambda>self. case body x self of Inl e \<Rightarrow> Inl e | Inr self' \<Rightarrow> for_each xs body self')"
    by (rule ext) simp
  then show ?case using run_effect_bind [OF 1 2] by simp
qed

lemma run_effect_sum:
  "(\<And>e. x = Inl e \<Longrightarrow> run_effect b (f e)) \<Longrightarrow> (\<And>v. x = Inr v \<Longrightarrow> run_effect b (g v)) \<Longrightarrow>
   run_effect b (\<lambda>self. case x of Inl e \<Rightarrow> f e self | Inr v \<Rightarrow> g v self)"
  by (cases x) simp_all

lemma run_effect_option:
  "(x = None \<Longrightarrow> run_effect b f) \<Longrightarrow> (\<And>v. x = Some v \<Longrightarrow> run_effect b (g v)) \<Longrightarrow>
   run_effect b (\<lambda>self. case x of None \<Rightarrow> f self | Some v \<Rightarrow> g v self)"
  by (cases x) simp_all

lemma run_effect_if:
  "(c \<Longrightarrow> run_effect b f) \<Longrightarrow> (\<not> c \<Longrightarrow> run_effect b g) \<Longrightarrow>
   run_effect b (\<lambda>self. if c then f self else g self)"
  by (cases c) simp_all

lemma run_effect_json:
  "run_effect b f1 \<Longrightarrow> (\<And>x. run_effect b (f2 x)) \<Longrightarrow> (\<And>x. run_effect b (f3 x)) \<Longrightarrow>
   (\<And>x. run_effect b (f4 x)) \<Longrightarrow> (\<And>x. run_effect b (f5 x)) \<Longrightarrow> (\<And>x. run_effect b (f6 x)) \<Longrightarrow>
   run_effect b (\<lambda>self. case j of JNull \<Rightarrow> f1 self | JBool x \<Rightarrow> f2 x self | JInt x \<Rightarrow> f3 x self
                   | JStr x \<Rightarrow> f4 x self | JList x \<Rightarrow> f5 x self | JObj x \<Rightarrow> f6 x self)"
  by (cases j) simp_all

lemmas run_effect_intros =
  run_effect_sum run_effect_option run_effect_if run_effect_json run_effect_for_each
  run_effect_raise run_effect_return run_effect_issue

lemma run_effect_status_code:
  "run_effect b (validate_status_code path meth response details)"
  unfolding validate_status_code_def Let_def
  by (intro run_effect_intros)

lemma run_effect_schema_structure:
  "run_effect b (validate_schema_structure path meth data schema)"
  unfolding validate_schema_structure_def
  by (intro run_effect_intros)

lemma run_effect_response_schema:
  "run_effect b (validate_response_schema path meth response details)"
  unfolding validate_response_schema_def
  by (intro run_effect_intros run_effect_schema_structure)

lemma run_effect_prod:
  "(\<And>u v. x = (u, v) \<Longrightarrow> run_effect b (f u v)) \<Longrightarrow>
   run_effect b (case x of (u, v) \<Rightarrow> f u v)"
  by (cases x) simp

lemma run_effect_after_send:
  assumes "run_effect b g"
  shows "run_effect b (\<lambda>self. g (self\<lparr>sent := sent self @ reqs\<rparr>))"
proof -
  from assms obtain r where
    g: "\<And>self. base_url self = b \<Longrightarrow>
        g self = (case r of Inl e \<Rightarrow> Inl e | Inr (new, reqs) \<Rightarrow> Inr (add_effect self new reqs))"
    unfolding run_effect_def by blast
  show ?thesis
  proof (cases r)
    case (Inl e)
    show ?thesis
      by (rule run_effectI [where r = "Inl e"]) (simp add: g Inl)
  next
    case (Inr p)
    obtain new reqs' where p: "p = (new, reqs')" by (cases p)
    show ?thesis
      by (rule run_effectI [where r = "Inr (new, reqs @ reqs')"])
         (simp add: g Inr p add_effect_def)
  qed
qed

lemma run_effect_endpoint:
  assumes "stateless net"
  shows "run_effect b (validate_endpoint net path meth details)"
proof (cases "prepare_test_path path details")
  case (Inl e)
  have "validate_endpoint net path meth details = (\<lambda>self. Inl e)"
    by (rule ext) (simp add: validate_endpoint_def Inl)
  then show ?thesis by (simp add: run_effect_raise)
next
  case (Inr test_path)
  let ?url = "b @ test_path"
  have net: "\<And>self :: APIValidator. net (sent self) meth ?url = net [] meth ?url"
    using assms by (metis stateless_def)
  show ?thesis
  proof (cases "net [] meth ?url")
    case (Inl failure)
    show ?thesis
      by (rule run_effectI [where r = "Inr ([\<lparr>severity = ERROR, endpoint = path, http_method = meth,
                     message = ''Failed to reach endpoint: '' @ failure,
                     expected = None, actual = None\<rparr>], [(meth, ?url)])"])
         (simp add: validate_endpoint_def \<open>prepare_test_path path details = Inr test_path\<close>
             net Inl Let_def add_effect_def append_issue_def)
  next
    case (Inr response)
    let ?g = "\<lambda>self. case validate_status_code path meth response details self of
                 Inl e \<Rightarrow> Inl e
               | Inr self2 \<Rightarrow>
                   if status_code response < 400
                   then validate_response_schema path meth response details self2
                   else Inr self2"
    have "run_effect b (\<lambda>self2. if status_code response < 400
                   then validate_response_schema path meth response details self2
                   else Inr self2)"
      by (intro run_effect_if run_effect_response_schema run_effect_return)
    then have "run_effect b ?g"
      by (rule run_effect_bind [OF run_effect_status_code])
    then have "run_effect b (\<lambda>self. ?g (self\<lparr>sent := sent self @ [(meth, ?url)]\<rparr>))"
      by (rule run_effect_after_send)
    then obtain r where r: "\<And>self. base_url self = b \<Longrightarrow>
        ?g (self\<lparr>sent := sent self @ [(meth, ?url)]\<rparr>) =
          (case r of Inl e \<Rightarrow> Inl e | Inr (new, reqs) \<Rightarrow> Inr (add_effect self new reqs))"
      unfolding run_effect_def by blast
    show ?thesis
    proof (rule run_effectI [where r = r])
      fix self :: APIValidator assume b: "base_url self = b"
      have "validate_endpoint net path meth details self =
            ?g (self\<lparr>sent := sent self @ [(meth, ?url)]\<rparr>)"
        by (simp add: validate_endpoint_def \<open>prepare_test_path path details = Inr test_path\<close>
            b net Inr Let_def)
      with r [OF b] show "validate_endpoint net path meth details self =
          (case r of Inl e \<Rightarrow> Inl e | Inr (new, reqs) \<Rightarrow> Inr (add_effect self new reqs))"
        by simp
    qed
  qed
qed

lemma validate_all_endpoints_effect:
  assumes "stateless net"
  shows "\<exists>r. \<forall>self :: APIValidator. base_url self = b \<and> spec self = d \<longrightarrow>
           validate_all_endpoints net self =
             (case r of Inl e \<Rightarrow> Inl e
              | Inr (new, reqs) \<Rightarrow> Inr (self\<lparr>issues := new, sent := sent self @ reqs\<rparr>))"
proof (cases "map_of d ''paths''")
  case None
  show ?thesis
    by (rule exI [where x = "Inr ([\<lparr>severity = CRITICAL, endpoint = ''N/A'', http_method = ''N/A'',
                message = ''No paths defined in OpenAPI specification'',
                expected = None, actual = None\<rparr>], [])"])
       (simp add: validate_all_endpoints_def None append_issue_def)
next
  case (Some paths)
  show ?thesis
  proof (cases "dict_items paths")
    case (Inl e)
    show ?thesis
      by (rule exI [where x = "Inl e"]) (simp add: validate_all_endpoints_def Some Inl)
  next
    case (Inr ps)
    let ?loop = "for_each ps
                    (\<lambda>(path, methods) self1.
                       case dict_items methods of
                         Inl e \<Rightarrow> Inl e
                       | Inr ms \<Rightarrow>
                           for_each ms
                             (\<lambda>(meth, details) self2.
                                if upper meth \<in> set [''GET'', ''POST'', ''PUT'', ''PATCH'', ''DELETE'']
                                then validate_endpoint net path (upper meth) details self2
                                else Inr self2)
                             self1)"
    have "run_effect b ?loop"
      by (intro run_effect_for_each run_effect_prod run_effect_sum run_effect_if
          run_effect_raise run_effect_return run_effect_endpoint [OF assms])
    then obtain r where r: "\<And>self. base_url self = b \<Longrightarrow>
        ?loop self = (case r of Inl e \<Rightarrow> Inl e | Inr (new, reqs) \<Rightarrow> Inr (add_effect self new reqs))"
      unfolding run_effect_def by blast
    show ?thesis
    proof (intro exI [where x = r] allI impI)
      fix self :: APIValidator assume a: "base_url self = b \<and> spec self = d"
      then have "validate_all_endpoints net self = ?loop (self\<lparr>issues := []\<rparr>)"
        by (simp add: validate_all_endpoints_def Some Inr)
      also have "\<dots> = (case r of Inl e \<Rightarrow> Inl e
              | Inr (new, reqs) \<Rightarrow> Inr (add_effect (self\<lparr>issues := []\<rparr>) new reqs))"
        using a by (intro r) simp
      also have "\<dots> = (case r of Inl e \<Rightarrow> Inl e
              | Inr (new, reqs) \<Rightarrow> Inr (self\<lparr>issues := new, sent := sent self @ reqs\<rparr>))"
        by (simp add: add_effect_def split: sum.splits)
      finally show "validate_all_endpoints net self =
             (case r of Inl e \<Rightarrow> Inl e
              | Inr (new, reqs) \<Rightarrow> Inr (self\<lparr>issues := new, sent := sent self @ reqs\<rparr>))" .
    qed
  qed
qed

lemma validate_all_endpoints_again:
  assumes "stateless net" and "validate_all_endpoints net self = Inr v"
  shows "\<exists>v'. validate_all_endpoints net v = Inr v' \<and> issues v' = issues v"
proof -
  from validate_all_endpoints_effect [OF assms(1), of "base_url self" "spec self"]
  obtain r where r: "\<And>w :: APIValidator. base_url w = base_url self \<Longrightarrow> spec w = spec self \<Longrightarrow>
           validate_all_endpoints net w =
             (case r of Inl e \<Rightarrow> Inl e
              | Inr (new, reqs) \<Rightarrow> Inr (w\<lparr>issues := new, sent := sent w @ reqs\<rparr>))"
    by blast
  from r [of self] assms(2) obtain new reqs where
    rr: "r = Inr (new, reqs)" and v: "v = self\<lparr>issues := new, sent := sent self @ reqs\<rparr>"
    by (auto split: sum.splits)
  from v have "base_url v = base_url self" "spec v = spec self" by simp_all
  from r [OF this] rr v show ?thesis by simp
qed


text \<open>
  C10. \<^verbatim>\<open>validate_all_endpoints\<close> empties the issue list before it walks the
  document: its result does not depend on the issues the validator held before the call.
  The summary taken after a run counts the issues of that run. On a network whose answers
  do not depend on earlier requests, a second call on the validator that the first call
  left returns the same list as the first, not the two lists one after the other.
\<close>

theorem validate_all_endpoints_resets_issues:
  "validate_all_endpoints net (self\<lparr>issues := old\<rparr>) = validate_all_endpoints net self \<and>
   (\<forall>v. validate_all_endpoints net self = Inr v \<longrightarrow>
        map_of (get_summary v) ''total'' = Some (length (issues v)) \<and>
        (stateless net \<longrightarrow>
           (\<exists>v'. validate_all_endpoints net v = Inr v' \<and> issues v' = issues v \<and>
                 get_summary v' = get_summary v)))"
proof (intro conjI allI impI)
  show "validate_all_endpoints net (self\<lparr>issues := old\<rparr>) = validate_all_endpoints net self"
    by (simp add: validate_all_endpoints_def)
next
  fix v
  show "map_of (get_summary v) ''total'' = Some (length (issues v))"
    by (simp add: get_summary_def)
next
  fix v
  assume "validate_all_endpoints net self = Inr v" and "stateless net"
  from validate_all_endpoints_again [OF this(2) this(1)]
  show "\<exists>v'. validate_all_endpoints net v = Inr v' \<and> issues v' = issues v \<and>
                 get_summary v' = get_summary v"
    by (auto simp: get_summary_def)
qed

lemma upper_methods: "upper ''get'' = ''GET''" "upper ''post'' = ''POST''"
  by code_simp+

lemma prepare_test_path_no_parameters: "prepare_test_path p (JObj []) = Inr p"
  by (simp add: prepare_test_path_def dict_get_def)

lemma validate_users_unreachable:
  "\<exists>v. validate_all_endpoints unreachable
          (new_validator ''openapi.json'' ''http://localhost:8000/'' users_spec) = Inr v \<and>
       length (issues v) = 3 \<and>
       sent v = [(''GET'', ''http://localhost:8000/users''),
                 (''POST'', ''http://localhost:8000/users''),
                 (''GET'', ''http://localhost:8000/users/{id}'')]"
  by (simp add: validate_all_endpoints_def new_validator_def users_spec_def upper_methods prepare_test_path_no_parameters
      validate_endpoint_def unreachable_def append_issue_def rstrip_slash_def Let_def)

theorem validate_all_endpoints_resets_issues_witness:
  "stateless unreachable \<and>
   (\<exists>v. validate_all_endpoints unreachable
          (new_validator ''openapi.json'' ''http://localhost:8000/'' users_spec) = Inr v \<and>
        length (issues v) = 3 \<and>
        map_of (get_summary v) ''total'' = Some 3 \<and>
        (\<exists>v'. validate_all_endpoints unreachable v = Inr v' \<and> length (issues v') = 3))"
proof -
  have s: "stateless unreachable"
    by (simp add: stateless_def unreachable_def fun_eq_iff)
  from validate_users_unreachable obtain v where
    v: "validate_all_endpoints unreachable
          (new_validator ''openapi.json'' ''http://localhost:8000/'' users_spec) = Inr v"
    and l: "length (issues v) = 3"
    by blast
  from validate_all_endpoints_resets_issues
    [where net = unreachable and old = "[]" and
      self = "new_validator ''openapi.json'' ''http://localhost:8000/'' users_spec"]
    v s l
  have "map_of (get_summary v) ''total'' = Some 3 \<and>
        (\<exists>v'. validate_all_endpoints unreachable v = Inr v' \<and> length (issues v') = 3)"
    by (metis (no_types, lifting))
  with s v l show ?thesis by blast
qed

section \<open>Required properties of a response body\<close>

lemma key_in_hashable: "hashable p \<Longrightarrow> \<exists>x. key_in p body = Inr x"
  by (cases p) auto

lemma for_each_required:
  "list_all hashable props \<Longrightarrow>
   for_each props
     (\<lambda>prop self'.
        case key_in prop body of
          Inl e \<Rightarrow> Inl e
        | Inr present \<Rightarrow>
            if \<not> present
            then Inr (append_issue self' (missing_property_issue path meth req body prop))
            else Inr self')
     self
   = Inr (self\<lparr>issues := issues self @
            map (missing_property_issue path meth req body) (missing_props body props)\<rparr>)"
proof (induction props arbitrary: self)
  case Nil
  then show ?case by (simp add: missing_props_def)
next
  case (Cons p props)
  from Cons.prems have h: "hashable p" and hs: "list_all hashable props" by simp_all
  from key_in_hashable [OF h] obtain x where x: "key_in p body = Inr x" by blast
  show ?case
    using Cons.IH [OF hs] x
    by (cases x) (simp_all add: missing_props_def append_issue_def)
qed

lemma validate_schema_structure_object:
  assumes "dict_get sch ''type'' JNull = JStr ''object''"
    and "dict_get sch ''required'' (JList []) = JList props"
    and "list_all hashable props"
  shows "validate_schema_structure path meth (JObj body) (JObj sch) self =
         Inr (self\<lparr>issues := issues self @
            map (missing_property_issue path meth (JList props) body) (missing_props body props)\<rparr>)"
  using assms by (simp add: validate_schema_structure_def for_each_required)

lemma distinct_set_single:
  assumes "distinct xs" and "set xs = {p}"
  shows "xs = [p]"
proof (cases xs)
  case Nil
  with assms(2) show ?thesis by simp
next
  case (Cons a ys)
  with assms(2) have a: "a = p" by auto
  have "ys = []"
  proof (cases ys)
    case Nil
    then show ?thesis .
  next
    case (Cons b zs)
    with \<open>xs = a # ys\<close> assms(2) have "b = p" by auto
    with a Cons \<open>xs = a # ys\<close> assms(1) show ?thesis by simp
  qed
  with a Cons show ?thesis by simp
qed

lemma missing_props_single:
  assumes "distinct props" and "set (missing_props body props) = {p}"
  shows "missing_props body props = [p]"
proof -
  from assms(1) have "distinct (missing_props body props)"
    by (simp add: missing_props_def)
  then show ?thesis using assms(2) by (rule distinct_set_single)
qed

text \<open>
  C6. A response with a status below 400 whose declared schema for that status has type
  \<^verbatim>\<open>object\<close>, and whose body parses to a dictionary, adds one issue for every entry of
  \<^verbatim>\<open>required\<close> that is not a key of the body, and nothing else: each of these issues
  has severity error, the whole \<^verbatim>\<open>required\<close> list as \<open>expected\<close> and the list of the
  body's keys as \<open>actual\<close>. When \<^verbatim>\<open>required\<close> lists every name once and one of its
  names is missing, the response adds exactly one issue, which names that property.
\<close>

theorem missing_required_properties:
  assumes prep: "prepare_test_path path details = Inr test_path"
    and net: "net (sent self) meth (base_url self @ test_path) = Inr response"
    and ok: "status_code response < 400"
    and body: "json_body response = Some (JObj body)"
    and sch: "declared_schema details (str_int (status_code response)) = Some (JObj sch)"
    and ty: "dict_get sch ''type'' JNull = JStr ''object''"
    and req: "dict_get sch ''required'' (JList []) = JList props"
    and hash: "list_all hashable props"
  shows "validate_endpoint net path meth details self =
           Inr (self\<lparr>sent := sent self @ [(meth, base_url self @ test_path)],
                    issues := issues self @
                      map (missing_property_issue path meth (JList props) body)
                        (missing_props body props)\<rparr>) \<and>
         list_all (\<lambda>i. severity i = ERROR \<and> expected i = Some (JList props) \<and>
                       actual i = Some (JList (map (\<lambda>kv. JStr (fst kv)) body)))
           (map (missing_property_issue path meth (JList props) body) (missing_props body props)) \<and>
         (\<forall>p. distinct props \<and> set (missing_props body props) = {p} \<longrightarrow>
              map (missing_property_issue path meth (JList props) body) (missing_props body props)
                = [\<lparr>severity = ERROR, endpoint = path, http_method = meth,
                    message = ''Missing required property: '' @ py_str p,
                    expected = Some (JList props),
                    actual = Some (JList (map (\<lambda>kv. JStr (fst kv)) body))\<rparr>])"
proof (intro conjI allI impI)
  from sch obtain d rs r c jc where
    d: "details = JObj d" and rs: "dict_get d ''responses'' (JObj []) = JObj rs"
    and r: "map_of rs (str_int (status_code response)) = Some (JObj r)"
    and c: "dict_get r ''content'' (JObj []) = JObj c"
    and jc: "dict_get c ''application/json'' (JObj []) = JObj jc"
    and s: "map_of jc ''schema'' = Some (JObj sch)"
    by (auto simp: declared_schema_def split: json.splits option.splits)
  from ty have ne: "sch \<noteq> []" by (auto simp: dict_get_def)
  from s have s': "dict_get jc ''schema'' (JObj []) = JObj sch" by (simp add: dict_get_def)
  let ?self1 = "self\<lparr>sent := sent self @ [(meth, base_url self @ test_path)]\<rparr>"
  have st: "validate_status_code path meth response details ?self1 = Inr ?self1"
    by (simp add: validate_status_code_def d rs r)
  have rsch: "validate_response_schema path meth response details ?self1 =
        validate_schema_structure path meth (JObj body) (JObj sch) ?self1"
    using ne by (simp add: validate_response_schema_def body d rs r c jc s')
  show "validate_endpoint net path meth details self =
           Inr (self\<lparr>sent := sent self @ [(meth, base_url self @ test_path)],
                    issues := issues self @
                      map (missing_property_issue path meth (JList props) body)
                        (missing_props body props)\<rparr>)"
    by (simp add: validate_endpoint_def prep net Let_def st ok rsch
        validate_schema_structure_object [OF ty req hash])
next
  show "list_all (\<lambda>i. severity i = ERROR \<and> expected i = Some (JList props) \<and>
                       actual i = Some (JList (map (\<lambda>kv. JStr (fst kv)) body)))
           (map (missing_property_issue path meth (JList props) body) (missing_props body props))"
    by (simp add: list_all_iff missing_property_issue_def)
next
  fix p assume "distinct props \<and> set (missing_props body props) = {p}"
  then have "missing_props body props = [p]" by (simp add: missing_props_single)
  then show "map (missing_property_issue path meth (JList props) body) (missing_props body props)
                = [\<lparr>severity = ERROR, endpoint = path, http_method = meth,
                    message = ''Missing required property: '' @ py_str p,
                    expected = Some (JList props),
                    actual = Some (JList (map (\<lambda>kv. JStr (fst kv)) body))\<rparr>]"
    by (simp add: missing_property_issue_def)
qed

lemma local_validator_simps:
  "base_url (local_validator doc) = ''http://localhost:8000''"
  "sent (local_validator doc) = []"
  "issues (local_validator doc) = []"
  "spec (local_validator doc) = doc"
  by (simp_all add: local_validator_def new_validator_def rstrip_slash_def)

theorem missing_required_properties_witness:
  "prepare_test_path ''/users/{id}'' user_operation = Inr ''/users/42'' \<and>
   status_code user_response < 400 \<and>
   json_body user_response = Some (JObj [(''id'', JInt 1)]) \<and>
   declared_schema user_operation (str_int (status_code user_response)) = Some (JObj user_schema) \<and>
   validate_endpoint (answers user_response) ''/users/{id}'' ''GET'' user_operation
       (local_validator users_spec)
     = Inr ((local_validator users_spec)
         \<lparr>sent := [(''GET'', ''http://localhost:8000/users/42'')],
          issues := [\<lparr>severity = ERROR, endpoint = ''/users/{id}'', http_method = ''GET'',
                      message = ''Missing required property: name'',
                      expected = Some (JList [JStr ''id'', JStr ''name'']),
                      actual = Some (JList [JStr ''id''])\<rparr>]\<rparr>)"
proof -
  have prep: "prepare_test_path ''/users/{id}'' user_operation = Inr ''/users/42''"
    by code_simp
  have net: "answers user_response (sent (local_validator users_spec)) ''GET''
               (base_url (local_validator users_spec) @ ''/users/42'') = Inr user_response"
    by (simp add: answers_def)
  have ok: "status_code user_response < 400"
    by (simp add: user_response_def)
  have body: "json_body user_response = Some (JObj [(''id'', JInt 1)])"
    by (simp add: user_response_def)
  have sch: "declared_schema user_operation (str_int (status_code user_response))
               = Some (JObj user_schema)"
    by code_simp
  have ty: "dict_get user_schema ''type'' JNull = JStr ''object''"
    by (simp add: user_schema_def dict_get_def)
  have req: "dict_get user_schema ''required'' (JList []) = JList [JStr ''id'', JStr ''name'']"
    by (simp add: user_schema_def dict_get_def)
  have hash: "list_all hashable [JStr ''id'', JStr ''name'']"
    by simp
  have miss: "missing_props [(''id'', JInt 1)] [JStr ''id'', JStr ''name''] = [JStr ''name'']"
    by (simp add: missing_props_def)
  from missing_required_properties
    [where net = "answers user_response" and self = "local_validator users_spec",
      OF prep net ok body sch ty req hash]
  have "validate_endpoint (answers user_response) ''/users/{id}'' ''GET'' user_operation
       (local_validator users_spec)
     = Inr ((local_validator users_spec)
         \<lparr>sent := sent (local_validator users_spec) @
             [(''GET'', base_url (local_validator users_spec) @ ''/users/42'')],
          issues := issues (local_validator users_spec) @
             map (missing_property_issue ''/users/{id}'' ''GET'' (JList [JStr ''id'', JStr ''name''])
                    [(''id'', JInt 1)])
               (missing_props [(''id'', JInt 1)] [JStr ''id'', JStr ''name''])\<rparr>)"
    by (rule conjunct1)
  then have "validate_endpoint (answers user_response) ''/users/{id}'' ''GET'' user_operation
       (local_validator users_spec)
     = Inr ((local_validator users_spec)
         \<lparr>sent := [(''GET'', ''http://localhost:8000/users/42'')],
          issues := [\<lparr>severity = ERROR, endpoint = ''/users/{id}'', http_method = ''GET'',
                      message = ''Missing required property: name'',
                      expected = Some (JList [JStr ''id'', JStr ''name'']),
                      actual = Some (JList [JStr ''id''])\<rparr>]\<rparr>)"
    by (simp add: miss local_validator_simps missing_property_issue_def py_str_def)
  with prep ok body sch show ?thesis by blast
qed

section \<open>Path materialization\<close>

lemma replace_Nil: "old \<noteq> [] \<Longrightarrow> replace [] old new = []"
  by (simp add: replace.simps)

lemma replace_match:
  "old \<noteq> [] \<Longrightarrow> replace (old @ rest) old new = new @ replace rest old new"
  by (subst replace.simps) simp

lemma replace_skip:
  assumes "CHR ''{'' \<notin> set s"
  shows "replace (s @ rest) (CHR ''{'' # pat) new = s @ replace rest (CHR ''{'' # pat) new"
  using assms
proof (induction s)
  case Nil
  then show ?case by simp
next
  case (Cons c s)
  then have c: "c \<noteq> CHR ''{''" and s: "CHR ''{'' \<notin> set s" by auto
  have "replace ((c # s) @ rest) (CHR ''{'' # pat) new
        = c # replace (s @ rest) (CHR ''{'' # pat) new"
    using c by (subst replace.simps) auto
  with Cons.IH [OF s] show ?case by simp
qed

lemma hole_prefix:
  assumes "CHR ''}'' \<notin> set n" and "CHR ''}'' \<notin> set m"
    and "take (length (m @ ''}'')) (n @ ''}'' @ rest) = m @ ''}''"
  shows "n = m"
  using assms
proof (induction n arbitrary: m)
  case Nil
  then show ?case by (cases m) auto
next
  case (Cons a n)
  show ?case
  proof (cases m)
    case Nil
    with Cons.prems show ?thesis by auto
  next
    case (Cons b m')
    with Cons.prems have "a = b" "take (length (m' @ ''}'')) (n @ ''}'' @ rest) = m' @ ''}''"
      "CHR ''}'' \<notin> set n" "CHR ''}'' \<notin> set m'"
      by auto
    with Cons.IH [of m'] Cons show ?thesis by simp
  qed
qed

lemma replace_hole:
  assumes n: "CHR ''{'' \<notin> set n" "CHR ''}'' \<notin> set n" and m: "CHR ''}'' \<notin> set m"
  shows "replace (''{'' @ n @ ''}'' @ rest) (''{'' @ m @ ''}'') v =
         (if n = m then v @ replace rest (''{'' @ m @ ''}'') v
          else ''{'' @ n @ ''}'' @ replace rest (''{'' @ m @ ''}'') v)"
proof (cases "n = m")
  case True
  have "replace ((''{'' @ m @ ''}'') @ rest) (''{'' @ m @ ''}'') v
        = v @ replace rest (''{'' @ m @ ''}'') v"
    by (rule replace_match) simp
  with True show ?thesis by simp
next
  case False
  have nomatch: "take (length (''{'' @ m @ ''}'')) (''{'' @ n @ ''}'' @ rest) \<noteq> ''{'' @ m @ ''}''"
  proof
    assume "take (length (''{'' @ m @ ''}'')) (''{'' @ n @ ''}'' @ rest) = ''{'' @ m @ ''}''"
    then have "take (length (m @ ''}'')) (n @ ''}'' @ rest) = m @ ''}''" by simp
    from hole_prefix [OF n(2) m this] False show False by simp
  qed
  have "replace (''{'' @ n @ ''}'' @ rest) (''{'' @ m @ ''}'') v
        = CHR ''{'' # replace (n @ ''}'' @ rest) (''{'' @ m @ ''}'') v"
    using nomatch by (subst replace.simps) simp
  also have "replace (n @ ''}'' @ rest) (''{'' @ m @ ''}'') v
        = (n @ ''}'') @ replace rest (''{'' @ m @ ''}'') v"
    using replace_skip [of "n @ ''}''" rest "m @ ''}''" v] n(1) by simp
  finally show ?thesis using False by simp
qed

lemma replace_render:
  assumes "list_all wf_token ts" and "CHR ''}'' \<notin> set m"
  shows "replace (render ts) (''{'' @ m @ ''}'') v = render (map (subst m v) ts)"
  using assms(1)
proof (induction ts)
  case Nil
  then show ?case by (simp add: render_def replace_Nil)
next
  case (Cons t ts)
  then have ih: "replace (render ts) (''{'' @ m @ ''}'') v = render (map (subst m v) ts)"
    by simp
  show ?case
  proof (cases t)
    case (Lit s)
    with Cons.prems have "CHR ''{'' \<notin> set s" by simp
    from replace_skip [OF this, of "render ts" "m @ ''}''" v] ih Lit
    show ?thesis by (simp add: render_def)
  next
    case (Hole n)
    with Cons.prems have n: "CHR ''{'' \<notin> set n" "CHR ''}'' \<notin> set n" by simp_all
    from replace_hole [OF n assms(2), of "render ts" v] ih Hole
    show ?thesis by (simp add: render_def)
  qed
qed

lemma wf_subst:
  "list_all wf_token ts \<Longrightarrow> CHR ''{'' \<notin> set v \<Longrightarrow> list_all wf_token (map (subst m v) ts)"
proof (induction ts)
  case Nil
  then show ?case by simp
next
  case (Cons t ts)
  then show ?case by (cases t) simp_all
qed

lemma materialize_Cons:
  "materialize (map_of ((m, v) # ps)) ts = materialize (map_of ps) (map (subst m v) ts)"
proof (induction ts)
  case Nil
  then show ?case by (simp add: materialize_def)
next
  case (Cons t ts)
  then show ?case by (cases t) (simp_all add: materialize_def)
qed

lemma materialize_empty: "materialize (\<lambda>a. None) ts = render ts"
proof (induction ts)
  case Nil
  then show ?case by (simp add: materialize_def render_def)
next
  case (Cons t ts)
  then show ?case by (cases t) (simp_all add: materialize_def render_def)
qed

lemma replace_all_params:
  "list_all wf_token ts \<Longrightarrow> list_all wf_pair ps \<Longrightarrow>
   foldl (\<lambda>tp nv. replace tp (''{'' @ fst nv @ ''}'') (snd nv)) (render ts) ps
     = materialize (map_of ps) ts"
proof (induction ps arbitrary: ts)
  case Nil
  then show ?case by (simp add: materialize_empty)
next
  case (Cons p ps)
  obtain m v where p: "p = (m, v)" by (cases p)
  from Cons.prems have wp: "wf_pair p" and ps: "list_all wf_pair ps"
    by simp_all
  from wp p have m: "CHR ''}'' \<notin> set m" and v: "CHR ''{'' \<notin> set v"
    by (simp_all add: wf_pair_def)
  from replace_render [OF Cons.prems(1) m, of v]
  have "foldl (\<lambda>tp nv. replace tp (''{'' @ fst nv @ ''}'') (snd nv)) (render ts) (p # ps)
        = foldl (\<lambda>tp nv. replace tp (''{'' @ fst nv @ ''}'') (snd nv))
            (render (map (subst m v) ts)) ps"
    by (simp add: p)
  also have "\<dots> = materialize (map_of ps) (map (subst m v) ts)"
    by (rule Cons.IH [OF wf_subst [OF Cons.prems(1) v] ps])
  finally show ?case by (simp only: p materialize_Cons)
qed

lemma digit_char: "n < 10 \<Longrightarrow> char_of (48 + n) = digit n"
proof -
  assume "n < 10"
  then consider "n = 0" | "n = 1" | "n = 2" | "n = 3" | "n = 4" | "n = 5" | "n = 6"
    | "n = 7" | "n = 8" | "n = 9"
    by atomize_elim presburger
  then show ?thesis
    by cases (simp_all add: digit_def, code_simp+)
qed

lemma digits_numeral_text: "digits n = numeral_text n"
proof (induction n rule: digits.induct)
  case (1 n)
  show ?case
  proof (cases "n < 10")
    case True
    then show ?thesis
      by (subst digits.simps, subst numeral_text.simps) (simp add: digit_char)
  next
    case False
    then have "n mod 10 < 10" by simp
    with False 1 show ?thesis
      by (subst digits.simps, subst numeral_text.simps) (simp add: digit_char)
  qed
qed

lemma str_int_decimal: "str_int i = decimal i"
  by (simp add: str_int_def decimal_def digits_numeral_text)

lemma digit_value: "n < 10 \<Longrightarrow> (of_char (digit n) :: nat) - 48 = n"
proof -
  assume "n < 10"
  then consider "n = 0" | "n = 1" | "n = 2" | "n = 3" | "n = 4" | "n = 5" | "n = 6"
    | "n = 7" | "n = 8" | "n = 9"
    by atomize_elim presburger
  then show ?thesis
    by cases (simp_all add: digit_def)
qed

lemma decimal_value_numeral_text: "decimal_value (numeral_text n) = n"
proof (induction n rule: numeral_text.induct)
  case (1 n)
  show ?case
  proof (cases "n < 10")
    case True
    then show ?thesis
      by (subst numeral_text.simps) (simp add: decimal_value_def digit_value)
  next
    case False
    then have m: "n mod 10 < 10" by simp
    from False 1 have ih: "decimal_value (numeral_text (n div 10)) = n div 10" by simp
    have "decimal_value (numeral_text n)
          = 10 * decimal_value (numeral_text (n div 10)) + (of_char (digit (n mod 10)) - 48)"
      using False by (subst numeral_text.simps) (simp add: decimal_value_def)
    with ih m show ?thesis by (simp add: digit_value)
  qed
qed

lemma py_str_scalar: "scalar v \<Longrightarrow> py_str v = example_text v"
  by (cases v) (simp_all add: py_str_def str_int_decimal)


lemma for_each_params:
  "list_all declared_ok params \<Longrightarrow>
   for_each params
     (\<lambda>param test_path.
        case py_get param ''in'' JNull of
          Inl e \<Rightarrow> Inl e
        | Inr loc \<Rightarrow>
            if py_eq loc (JStr ''path'') then
              (case py_get param ''name'' JNull of
                 Inl e \<Rightarrow> Inl e
               | Inr param_name \<Rightarrow>
                   (case py_get param ''example'' (JStr ''1'') of
                      Inl e \<Rightarrow> Inl e
                    | Inr example_value \<Rightarrow>
                        Inr (replace test_path
                               (''{'' @ py_str param_name @ ''}'')
                               (py_str example_value))))
            else Inr test_path)
     tp
   = Inr (foldl (\<lambda>tp nv. replace tp (''{'' @ fst nv @ ''}'') (snd nv)) tp (path_params params))"
proof (induction params arbitrary: tp)
  case Nil
  then show ?case by simp
next
  case (Cons p params)
  from Cons.prems have ok: "declared_ok p" and rest: "list_all declared_ok params"
    by simp_all
  from ok obtain d where d: "p = JObj d"
    by (cases p) (simp_all add: declared_ok_def)
  have str: "py_eq a (JStr ''path'') \<longleftrightarrow> a = JStr ''path''" for a
    by (cases a) auto
  have eq: "py_eq (dict_get d ''in'' JNull) (JStr ''path'') \<longleftrightarrow> in_path d"
    by (cases "map_of d ''in''") (simp_all add: dict_get_def in_path_def str)
  show ?case
  proof (cases "in_path d")
    case False
    then show ?thesis
      using Cons.IH [OF rest] by (simp add: d eq split: option.splits json.splits)
  next
    case True
    with ok d obtain n where n: "map_of d ''name'' = Some (JStr n)"
      and sc: "scalar (example_of d)"
      by (auto simp: declared_ok_def split: option.splits json.splits)
    have ex: "dict_get d ''example'' (JStr ''1'') = example_of d"
      by (simp add: dict_get_def example_of_def)
    show ?thesis
      using Cons.IH [OF rest] True
      by (simp add: d eq n ex dict_get_def [of d "''name''"] py_str_scalar [OF sc]
          py_str_def [of "JStr n"])
  qed
qed

lemma path_params_wf:
  "list_all declared_ok params \<Longrightarrow> list_all wf_pair (path_params params)"
proof (induction params)
  case Nil
  then show ?case by simp
next
  case (Cons p params)
  from Cons.prems have ok: "declared_ok p" and rest: "list_all declared_ok params"
    by simp_all
  from ok obtain d where d: "p = JObj d"
    by (cases p) (simp_all add: declared_ok_def)
  from ok d Cons.IH [OF rest] show ?case
    by (auto simp: declared_ok_def wf_pair_def split: option.splits json.splits)
qed

text \<open>
  The claim C5 is stated for every path template and every parameter list.
  \<^verbatim>\<open>_prepare_test_path\<close> replaces one parameter after the other in the text that the
  replacements before it have left: where the example of \<^verbatim>\<open>x\<close> is the text
  \<^verbatim>\<open>{y}\<close> and \<^verbatim>\<open>y\<close> is declared after it, the placeholder \<^verbatim>\<open>{x}\<close> does not
  end as the example of \<^verbatim>\<open>x\<close> but as that of \<^verbatim>\<open>y\<close>.
\<close>

theorem prepare_test_path_counterexample:
  "render [Lit ''/a/'', Hole ''x'', Lit ''/'', Hole ''y''] = ''/a/{x}/{y}'' \<and>
   materialize (map_of (path_params nested_parameters))
     [Lit ''/a/'', Hole ''x'', Lit ''/'', Hole ''y''] = ''/a/{y}/2'' \<and>
   prepare_test_path ''/a/{x}/{y}'' (JObj [(''parameters'', JList nested_parameters)])
     = Inr ''/a/2/2''"
proof (intro conjI)
  show "render [Lit ''/a/'', Hole ''x'', Lit ''/'', Hole ''y''] = ''/a/{x}/{y}''"
    by (simp add: render_def)
  show "materialize (map_of (path_params nested_parameters))
     [Lit ''/a/'', Hole ''x'', Lit ''/'', Hole ''y''] = ''/a/{y}/2''"
    by (simp add: nested_parameters_def in_path_def example_of_def materialize_def)
  show "prepare_test_path ''/a/{x}/{y}'' (JObj [(''parameters'', JList nested_parameters)])
     = Inr ''/a/2/2''"
    unfolding nested_parameters_def by code_simp
qed

text \<open>
  C5, amended. For every well-formed path template and every list of declared parameters
  that are in order (a path parameter has a string name without \<^verbatim>\<open>}\<close> and a scalar
  example whose text has no \<^verbatim>\<open>{\<close>), \<^verbatim>\<open>_prepare_test_path\<close> returns the template
  with every placeholder \<^verbatim>\<open>{name}\<close> of a declared path parameter replaced by the text
  of that parameter's example (the string itself, an integer in decimal notation,
  \<^verbatim>\<open>1\<close> when no example is declared; the first declaration of a name counts), and
  with every other placeholder passed through unchanged.
\<close>

theorem prepare_test_path_materializes:
  assumes "dict_get d ''parameters'' (JList []) = JList params"
    and "list_all declared_ok params"
    and "list_all wf_token ts"
  shows "prepare_test_path (render ts) (JObj d)
           = Inr (materialize (map_of (path_params params)) ts)"
  by (simp only: prepare_test_path_def py_get.simps assms(1) sum.case py_iter.simps
      for_each_params [OF assms(2)] replace_all_params [OF assms(3) path_params_wf [OF assms(2)]])

theorem prepare_test_path_materializes_witness:
  "dict_get pages_operation ''parameters'' (JList []) = JList pages_parameters \<and>
   list_all declared_ok pages_parameters \<and>
   list_all wf_token pages_template \<and>
   render pages_template = ''/users/{id}/posts/{post_id}/pages/{page}/{tag}/{id}'' \<and>
   prepare_test_path ''/users/{id}/posts/{post_id}/pages/{page}/{tag}/{id}''
     (JObj pages_operation)
     = Inr ''/users/42/posts/{post_id}/pages/307/1/42''"
proof -
  have a: "dict_get pages_operation ''parameters'' (JList []) = JList pages_parameters"
    by (simp add: pages_operation_def dict_get_def)
  have t: "decimal 307 = ''307''"
    by code_simp
  have b: "list_all declared_ok pages_parameters"
    by (simp add: pages_parameters_def declared_ok_def in_path_def example_of_def t)
  have c: "list_all wf_token pages_template"
    by (simp add: pages_template_def)
  have pp: "path_params pages_parameters = [(''id'', ''42''), (''page'', ''307''), (''tag'', ''1'')]"
    by (simp add: pages_parameters_def in_path_def example_of_def t)
  have r: "render pages_template = ''/users/{id}/posts/{post_id}/pages/{page}/{tag}/{id}''"
    by (simp add: render_def pages_template_def)
  have m: "materialize (map_of (path_params pages_parameters)) pages_template
             = ''/users/42/posts/{post_id}/pages/307/1/42''"
    by (simp add: pp materialize_def pages_template_def)
  from prepare_test_path_materializes [OF a b c]
  have "prepare_test_path ''/users/{id}/posts/{post_id}/pages/{page}/{tag}/{id}''
          (JObj pages_operation) = Inr ''/users/42/posts/{post_id}/pages/307/1/42''"
    by (simp only: r m)
  with a b c r show ?thesis by blast
qed

section \<open>Removed paths\<close>

lemma and_then_Inr:
  "and_then r f = Inr y \<longleftrightarrow> (\<exists>x. r = Inr x \<and> f x = Inr y)"
  by (cases r) simp_all

lemma for_each_invariant:
  assumes "for_each xs body s = Inr s'"
    and "\<And>x t t'. x \<in> set xs \<Longrightarrow> body x t = Inr t' \<Longrightarrow> R t t'"
    and "\<And>t. R t t"
    and "\<And>a b c. R a b \<Longrightarrow> R b c \<Longrightarrow> R a c"
  shows "R s s'"
  using assms(1,2)
proof (induction xs arbitrary: s)
  case Nil
  then show ?case using assms(3) by simp
next
  case (Cons x xs)
  from Cons.prems(1) obtain t where t: "body x s = Inr t" and r: "for_each xs body t = Inr s'"
    by (auto split: sum.splits)
  have "R s t" using Cons.prems(2) [of x s t] t by simp
  moreover have "R t s'"
  proof (rule Cons.IH [OF r])
    fix z u u' assume "z \<in> set xs" "body z u = Inr u'"
    then show "R u u'" using Cons.prems(2) [of z u u'] by simp
  qed
  ultimately show ?case by (rule assms(4))
qed

lemma for_each_step:
  assumes "for_each xs body s = Inr s'"
    and "x \<in> set xs"
    and "\<And>x t t'. x \<in> set xs \<Longrightarrow> body x t = Inr t' \<Longrightarrow> R t t'"
    and "\<And>t. R t t"
    and "\<And>a b c. R a b \<Longrightarrow> R b c \<Longrightarrow> R a c"
  shows "\<exists>t t'. R s t \<and> body x t = Inr t' \<and> R t' s'"
  using assms(1,2,3)
proof (induction xs arbitrary: s)
  case Nil
  then show ?case by simp
next
  case (Cons y ys)
  from Cons.prems(1) obtain t where t: "body y s = Inr t" and r: "for_each ys body t = Inr s'"
    by (auto split: sum.splits)
  have mono: "R u u'" if "z \<in> set ys" "body z u = Inr u'" for z u u'
    using Cons.prems(3) [of z u u'] that by simp
  show ?case
  proof (cases "x = y")
    case True
    have "R t s'"
    proof (rule for_each_invariant [OF r])
      show "R u u'" if "z \<in> set ys" "body z u = Inr u'" for z u u'
        using that by (rule mono)
      show "R u u" for u by (rule assms(4))
      show "R a c" if "R a b" "R b c" for a b c using that by (rule assms(5))
    qed
    with t True assms(4) show ?thesis by blast
  next
    case False
    with Cons.prems(2) have xs: "x \<in> set ys" by simp
    have "\<exists>u u'. R t u \<and> body x u = Inr u' \<and> R u' s'"
    proof (rule Cons.IH [OF r xs])
      show "R u u'" if "z \<in> set ys" "body z u = Inr u'" for z u u'
        using that by (rule mono)
    qed
    then obtain u u' where
      "R t u" "body x u = Inr u'" "R u' s'" by blast
    moreover have "R s t" using Cons.prems(3) [of y s t] t by simp
    ultimately show ?thesis using assms(5) by blast
  qed
qed

lemma more_breaking_refl: "more_breaking a a"
  by (simp add: more_breaking_def)

lemma more_breaking_trans: "more_breaking a b \<Longrightarrow> more_breaking b c \<Longrightarrow> more_breaking a c"
  unfolding more_breaking_def by blast

lemma more_breaking_append:
  "list_all severity_policy new \<Longrightarrow> more_breaking a (a @ new)"
  by (auto simp: more_breaking_def list_all_iff)

lemma grows_refl: "grows a a"
  by (simp add: grows_def more_breaking_refl)

lemma grows_trans: "grows a b \<Longrightarrow> grows b c \<Longrightarrow> grows a c"
  unfolding grows_def using more_breaking_trans by blast

lemma policy_entries:
  "severity_policy (endpoint_removed m p)"
  "severity_policy (method_removed m p)"
  "severity_policy (response_schema_changed m p c)"
  "severity_policy (required_parameter_removed m p n)"
  by (simp_all add: severity_policy_def endpoint_removed_def method_removed_def
      response_schema_changed_def required_parameter_removed_def)

lemma more_breaking_entries:
  "more_breaking a (a @ [response_schema_changed m p c])"
  "more_breaking a (a @ [required_parameter_removed m p n])"
  by (simp_all add: more_breaking_append policy_entries)

lemma grows_breaking:
  "list_all severity_policy new \<Longrightarrow>
   grows ch (ch\<lparr>breaking_changes := breaking_changes ch @ new\<rparr>)"
  by (simp add: grows_def more_breaking_append)

lemma removed_body_grows:
  assumes "(if map_of new_ps (fst item) = None
            then and_then (as_dict (snd item))
                   (\<lambda>ms. Inr (ch\<lparr>removed_endpoints := removed_endpoints ch @
                                   map (\<lambda>m. upper (fst m) @ '' '' @ fst item) ms,
                                 breaking_changes := breaking_changes ch @
                                   map (\<lambda>m. endpoint_removed (fst m) (fst item)) ms\<rparr>))
            else Inr ch) = Inr ch'"
  shows "grows ch ch'"
proof (cases "map_of new_ps (fst item) = None")
  case True
  show ?thesis
  proof (cases "as_dict (snd item)")
    case (Inl e)
    with assms True show ?thesis by simp
  next
    case (Inr ms)
    with assms True have "ch' = ch\<lparr>removed_endpoints := removed_endpoints ch @
                                   map (\<lambda>m. upper (fst m) @ '' '' @ fst item) ms,
                                 breaking_changes := breaking_changes ch @
                                   map (\<lambda>m. endpoint_removed (fst m) (fst item)) ms\<rparr>"
      by simp
    moreover have "list_all severity_policy (map (\<lambda>m. endpoint_removed (fst m) (fst item)) ms)"
      by (simp add: list_all_iff policy_entries)
    ultimately show ?thesis
      by (simp add: grows_def more_breaking_append)
  qed
next
  case False
  with assms show ?thesis by (simp add: grows_refl)
qed

lemma removed_loop_grows:
  "removed_loop old_ps new_ps ch = Inr ch' \<Longrightarrow> grows ch ch'"
  unfolding removed_loop_def
  by (erule for_each_invariant) (auto intro: removed_body_grows grows_refl grows_trans)

lemma removed_loop_lists:
  assumes "removed_loop old_ps new_ps ch = Inr ch'"
    and "(path, JObj ms) \<in> set old_ps" and "map_of new_ps path = None"
    and "m \<in> set (map fst ms)"
  shows "upper m @ '' '' @ path \<in> set (removed_endpoints ch') \<and>
         endpoint_removed m path \<in> set (breaking_changes ch')"
proof -
  let ?body = "\<lambda>item ch.
          if map_of new_ps (fst item) = None
          then and_then (as_dict (snd item))
                 (\<lambda>ms. Inr (ch\<lparr>removed_endpoints := removed_endpoints ch @
                                 map (\<lambda>m. upper (fst m) @ '' '' @ fst item) ms,
                               breaking_changes := breaking_changes ch @
                                 map (\<lambda>m. endpoint_removed (fst m) (fst item)) ms\<rparr>))
          else Inr ch"
  have "\<exists>t t'. grows ch t \<and> ?body (path, JObj ms) t = Inr t' \<and> grows t' ch'"
  proof (rule for_each_step [OF assms(1) [unfolded removed_loop_def] assms(2)])
    show "grows t t'" if "?body x t = Inr t'" for x t t'
      using that by (rule removed_body_grows)
    show "grows t t" for t by (rule grows_refl)
    show "grows a c" if "grows a b" "grows b c" for a b c using that by (rule grows_trans)
  qed
  then obtain t t' where step: "?body (path, JObj ms) t = Inr t'" and g: "grows t' ch'"
    by blast
  from step assms(3) have
    "t' = t\<lparr>removed_endpoints := removed_endpoints t @
                                 map (\<lambda>m. upper (fst m) @ '' '' @ path) ms,
                               breaking_changes := breaking_changes t @
                                 map (\<lambda>m. endpoint_removed (fst m) path) ms\<rparr>"
    by simp
  with assms(4) have "upper m @ '' '' @ path \<in> set (removed_endpoints t')"
    "endpoint_removed m path \<in> set (breaking_changes t')"
    by auto
  with g show ?thesis
    unfolding grows_def more_breaking_def by blast
qed

lemma removed_parameters_loop_more:
  "removed_parameters_loop path meth old_params new_params b = Inr b' \<Longrightarrow> more_breaking b b'"
  unfolding removed_parameters_loop_def
  by (erule for_each_invariant)
     (auto simp: and_then_Inr more_breaking_refl more_breaking_entries
        intro: more_breaking_trans split: if_splits)

lemma changed_schemas_body_more:
  assumes "and_then (as_dict new_responses)
            (\<lambda>new_rs.
               case map_of new_rs (fst item) of
                 None \<Rightarrow> Inr breaking
               | Some new_response \<Rightarrow>
                   and_then (extract_schema (snd item))
                     (\<lambda>old_schema.
                        and_then (extract_schema new_response)
                          (\<lambda>new_schema.
                             if \<not> py_eq old_schema new_schema
                             then Inr (breaking @
                                    [response_schema_changed meth path (fst item)])
                             else Inr breaking))) = Inr b'"
  shows "more_breaking breaking b'"
  using assms
  by (auto simp: and_then_Inr more_breaking_refl more_breaking_entries
      split: option.splits if_splits)

lemma changed_schemas_loop_more:
  "changed_schemas_loop path meth old_rs new_responses b = Inr b' \<Longrightarrow> more_breaking b b'"
  unfolding changed_schemas_loop_def
  by (erule for_each_invariant)
     (auto intro: changed_schemas_body_more more_breaking_refl more_breaking_trans)

lemma check_breaking_changes_policy:
  assumes "check_breaking_changes path meth old_op new_op = Inr breaking"
  shows "list_all severity_policy breaking"
proof -
  from assms obtain b1 old_rs new_responses old_params new_params where
    1: "removed_parameters_loop path meth old_params new_params [] = Inr b1"
    and 2: "changed_schemas_loop path meth old_rs new_responses b1 = Inr breaking"
    unfolding check_breaking_changes_def and_then_Inr by blast
  from removed_parameters_loop_more [OF 1] changed_schemas_loop_more [OF 2]
  have "more_breaking [] breaking" by (rule more_breaking_trans)
  then show ?thesis by (simp add: more_breaking_def list_all_iff)
qed

lemma added_loop_grows:
  "added_loop old_paths new_ps ch = Inr ch' \<Longrightarrow> grows ch ch'"
  unfolding added_loop_def
proof (erule for_each_invariant)
  fix x :: "string \<times> json" and t t' :: Changes
  assume "and_then (as_dict old_paths)
            (\<lambda>old_ps.
               if map_of old_ps (fst x) = None
               then and_then (as_dict (snd x))
                      (\<lambda>ms. Inr (t\<lparr>added_endpoints := added_endpoints t @
                                    map (\<lambda>m. upper (fst m) @ '' '' @ fst x) ms\<rparr>))
               else Inr t) = Inr t'"
  then show "grows t t'"
    by (auto simp: and_then_Inr grows_def more_breaking_refl split: if_splits)
qed (auto intro: grows_refl grows_trans)

lemma modified_methods_loop_grows:
  "modified_methods_loop path old_ms new_ms common ch = Inr ch' \<Longrightarrow> grows ch ch'"
  unfolding modified_methods_loop_def
proof (erule for_each_invariant)
  fix meth :: string and t t' :: Changes
  assume a: "(case map_of old_ms meth of
            None \<Rightarrow> Inl KeyError
          | Some old_op \<Rightarrow>
              (case map_of new_ms meth of
                 None \<Rightarrow> Inl KeyError
               | Some new_op \<Rightarrow>
                   if \<not> py_eq old_op new_op
                   then and_then (check_breaking_changes path meth old_op new_op)
                          (\<lambda>breaking.
                             Inr (t\<lparr>modified_endpoints := modified_endpoints t @
                                         [upper meth @ '' '' @ path],
                                      breaking_changes := breaking_changes t @ breaking\<rparr>))
                   else Inr t)) = Inr t'"
  then obtain old_op new_op where o: "map_of old_ms meth = Some old_op"
    and n: "map_of new_ms meth = Some new_op"
    by (auto split: option.splits)
  show "grows t t'"
  proof (cases "py_eq old_op new_op")
    case True
    with a o n show ?thesis by (simp add: grows_refl)
  next
    case False
    show ?thesis
    proof (cases "check_breaking_changes path meth old_op new_op")
      case (Inl e)
      with a o n False show ?thesis by simp
    next
      case (Inr breaking)
      with a o n False have "t' = t\<lparr>modified_endpoints := modified_endpoints t @
                                         [upper meth @ '' '' @ path],
                                      breaking_changes := breaking_changes t @ breaking\<rparr>"
        by simp
      with check_breaking_changes_policy [OF Inr] show ?thesis
        by (auto simp: grows_def more_breaking_append)
    qed
  qed
qed (auto intro: grows_refl grows_trans)

lemma modified_loop_grows:
  "modified_loop set_order old_ps new_ps ch = Inr ch' \<Longrightarrow> grows ch ch'"
  unfolding modified_loop_def
proof (erule for_each_invariant)
  fix item :: "string \<times> json" and t t' :: Changes
  assume a: "(case map_of new_ps (fst item) of
            None \<Rightarrow> Inr t
          | Some new_item \<Rightarrow>
              and_then (dict_items (snd item))
                (\<lambda>old_ms.
                   and_then (dict_items new_item)
                     (\<lambda>new_ms.
                        modified_methods_loop (fst item) old_ms new_ms
                          (set_order (filter (\<lambda>m. map_of new_ms m \<noteq> None) (map fst old_ms)))
                          (t\<lparr>breaking_changes := breaking_changes t @
                                map (\<lambda>m. method_removed m (fst item))
                                  (set_order (filter (\<lambda>m. map_of new_ms m = None)
                                     (map fst old_ms)))\<rparr>)))) = Inr t'"
  show "grows t t'"
  proof (cases "map_of new_ps (fst item)")
    case None
    with a show ?thesis by (simp add: grows_refl)
  next
    case (Some new_item)
    with a obtain old_ms new_ms where
      l: "modified_methods_loop (fst item) old_ms new_ms
            (set_order (filter (\<lambda>m. map_of new_ms m \<noteq> None) (map fst old_ms)))
            (t\<lparr>breaking_changes := breaking_changes t @
                  map (\<lambda>m. method_removed m (fst item))
                    (set_order (filter (\<lambda>m. map_of new_ms m = None) (map fst old_ms)))\<rparr>)
          = Inr t'"
      by (auto simp: and_then_Inr)
    have "list_all severity_policy (map (\<lambda>m. method_removed m (fst item))
                    (set_order (filter (\<lambda>m. map_of new_ms m = None) (map fst old_ms))))"
      by (simp add: list_all_iff policy_entries)
    from grows_breaking [OF this] modified_methods_loop_grows [OF l]
    show ?thesis by (rule grows_trans)
  qed
qed (auto intro: grows_refl grows_trans)

text \<open>
  The claim C3 ends: removing any path of the previous snapshot always yields at least one
  breaking change \<^verbatim>\<open>endpoint_removed\<close>. The breaking changes of a removed path are
  one for each of its methods: a path that declares no method, such as
  \<^verbatim>\<open>"/health": {}\<close>, is removed without any.
\<close>

theorem removed_path_counterexample:
  "map_of (paths_of health_spec) ''/health'' = Some (JObj []) \<and>
   map_of (paths_of empty_paths_spec) ''/health'' = None \<and>
   (\<forall>set_order. analyze_changes set_order health_spec empty_paths_spec = Inr no_changes) \<and>
   breaking_changes no_changes = [] \<and> removed_endpoints no_changes = []"
  by (simp add: analyze_changes_def health_spec_def empty_paths_spec_def dict_get_def
      added_loop_def removed_loop_def modified_loop_def no_changes_def paths_of_def)

text \<open>
  C3, amended. When the analysis of an old and a new document returns, every method of
  every path that the old document has and the new one has not is listed as a removed
  endpoint, and a breaking change \<^verbatim>\<open>endpoint_removed\<close> of severity critical is
  recorded for it; hence removing a path that declares at least one method yields at least
  one such breaking change.
\<close>

theorem removed_path_is_breaking:
  assumes "analyze_changes set_order old_spec new_spec = Inr ch"
    and "map_of (paths_of old_spec) path = Some (JObj ms)"
    and "map_of (paths_of new_spec) path = None"
  shows "(\<forall>m \<in> set (map fst ms).
            upper m @ '' '' @ path \<in> set (removed_endpoints ch) \<and>
            endpoint_removed m path \<in> set (breaking_changes ch)) \<and>
         (ms \<noteq> [] \<longrightarrow>
            (\<exists>bc \<in> set (breaking_changes ch).
               map_of bc ''type'' = Some (JStr ''endpoint_removed'') \<and>
               map_of bc ''severity'' = Some (JStr ''critical'')))"
proof -
  from assms(1) obtain new_ps changes1 old_ps changes2 where
    n: "as_dict (dict_get new_spec ''paths'' (JObj [])) = Inr new_ps"
    and o: "as_dict (dict_get old_spec ''paths'' (JObj [])) = Inr old_ps"
    and r: "removed_loop old_ps new_ps changes1 = Inr changes2"
    and m: "modified_loop set_order old_ps new_ps changes2 = Inr ch"
    unfolding analyze_changes_def and_then_Inr by blast
  from n have pn: "paths_of new_spec = new_ps"
    by (cases "dict_get new_spec ''paths'' (JObj [])") (simp_all add: paths_of_def)
  from o have po: "paths_of old_spec = old_ps"
    by (cases "dict_get old_spec ''paths'' (JObj [])") (simp_all add: paths_of_def)
  from assms(2) po have mem: "(path, JObj ms) \<in> set old_ps"
    by (simp add: map_of_SomeD)
  from assms(3) pn have none: "map_of new_ps path = None" by simp
  have each: "upper m @ '' '' @ path \<in> set (removed_endpoints ch) \<and>
            endpoint_removed m path \<in> set (breaking_changes ch)"
    if "m \<in> set (map fst ms)" for m
  proof -
    from removed_loop_lists [OF r mem none that] modified_loop_grows [OF m]
    show ?thesis unfolding grows_def more_breaking_def by blast
  qed
  show ?thesis
  proof (intro conjI ballI impI)
    fix m assume "m \<in> set (map fst ms)"
    then show "upper m @ '' '' @ path \<in> set (removed_endpoints ch)"
      and "endpoint_removed m path \<in> set (breaking_changes ch)"
      using each by blast+
  next
    assume "ms \<noteq> []"
    then obtain m where "m \<in> set (map fst ms)" by (cases ms) auto
    from each [OF this] have "endpoint_removed m path \<in> set (breaking_changes ch)" by simp
    moreover have "map_of (endpoint_removed m path) ''type'' = Some (JStr ''endpoint_removed'')"
      "map_of (endpoint_removed m path) ''severity'' = Some (JStr ''critical'')"
      by (simp_all add: endpoint_removed_def)
    ultimately show "\<exists>bc \<in> set (breaking_changes ch).
               map_of bc ''type'' = Some (JStr ''endpoint_removed'') \<and>
               map_of bc ''severity'' = Some (JStr ''critical'')"
      by blast
  qed
qed

lemma analyze_users_removed:
  "analyze_changes (\<lambda>xs. xs) users_spec users_only_spec =
     Inr \<lparr>added_endpoints = [], removed_endpoints = [''GET /users/{id}''],
          modified_endpoints = [],
          breaking_changes =
            [[(''type'', JStr ''endpoint_removed''),
              (''endpoint'', JStr ''GET /users/{id}''),
              (''severity'', JStr ''critical'')]]\<rparr>"
  by code_simp

theorem removed_path_is_breaking_witness:
  "map_of (paths_of users_spec) ''/users/{id}'' = Some (JObj [(''get'', JObj [])]) \<and>
   map_of (paths_of users_only_spec) ''/users/{id}'' = None \<and>
   (\<exists>ch. analyze_changes (\<lambda>xs. xs) users_spec users_only_spec = Inr ch \<and>
         ''GET /users/{id}'' \<in> set (removed_endpoints ch) \<and>
         endpoint_removed ''get'' ''/users/{id}'' \<in> set (breaking_changes ch) \<and>
         (\<exists>bc \<in> set (breaking_changes ch).
            map_of bc ''type'' = Some (JStr ''endpoint_removed'') \<and>
            map_of bc ''severity'' = Some (JStr ''critical'')))"
proof -
  have a: "map_of (paths_of users_spec) ''/users/{id}'' = Some (JObj [(''get'', JObj [])])"
    by (simp add: paths_of_def users_spec_def dict_get_def)
  have b: "map_of (paths_of users_only_spec) ''/users/{id}'' = None"
    by (simp add: paths_of_def users_only_spec_def dict_get_def)
  from removed_path_is_breaking [OF analyze_users_removed a b]
  have "upper ''get'' @ '' '' @ ''/users/{id}'' \<in> set (removed_endpoints
          \<lparr>added_endpoints = [], removed_endpoints = [''GET /users/{id}''],
          modified_endpoints = [],
          breaking_changes =
            [[(''type'', JStr ''endpoint_removed''),
              (''endpoint'', JStr ''GET /users/{id}''),
              (''severity'', JStr ''critical'')]]\<rparr>)"
    and "endpoint_removed ''get'' ''/users/{id}'' \<in> set (breaking_changes
          \<lparr>added_endpoints = [], removed_endpoints = [''GET /users/{id}''],
          modified_endpoints = [],
          breaking_changes =
            [[(''type'', JStr ''endpoint_removed''),
              (''endpoint'', JStr ''GET /users/{id}''),
              (''severity'', JStr ''critical'')]]\<rparr>)"
    and "\<exists>bc \<in> set (breaking_changes
          \<lparr>added_endpoints = [], removed_endpoints = [''GET /users/{id}''],
          modified_endpoints = [],
          breaking_changes =
            [[(''type'', JStr ''endpoint_removed''),
              (''endpoint'', JStr ''GET /users/{id}''),
              (''severity'', JStr ''critical'')]]\<rparr>).
            map_of bc ''type'' = Some (JStr ''endpoint_removed'') \<and>
            map_of bc ''severity'' = Some (JStr ''critical'')"
    by simp_all
  with a b analyze_users_removed show ?thesis
    by (simp add: upper_methods)
qed

section \<open>Changed response schemas\<close>

lemma wf_json_lookup: "wf_json (JObj d) \<Longrightarrow> map_of d k = Some v \<Longrightarrow> wf_json v"
  by (auto simp: list_all_iff dest!: map_of_SomeD)

lemma wf_json_dict_get:
  "wf_json (JObj d) \<Longrightarrow> wf_json dflt \<Longrightarrow> wf_json (dict_get d k dflt)"
  by (auto simp: dict_get_def wf_json_lookup split: option.splits)

lemma py_eq_lookup:
  assumes "py_eq (JObj a) (JObj b)" and "map_of a k = Some v"
  shows "\<exists>w. map_of b k = Some w \<and> py_eq v w"
proof -
  from assms(2) have "(k, v) \<in> set a" by (rule map_of_SomeD)
  with assms(1) show ?thesis
    by (auto simp: list_all_iff split: option.splits)
qed

lemma py_eq_keys:
  assumes "py_eq (JObj a) (JObj b)" and "distinct (map fst a)" and "distinct (map fst b)"
  shows "fst ` set a = fst ` set b"
proof -
  have sub: "fst ` set a \<subseteq> fst ` set b"
  proof
    fix k assume "k \<in> fst ` set a"
    then obtain v where "(k, v) \<in> set a" by auto
    with assms(2) have "map_of a k = Some v" by simp
    from py_eq_lookup [OF assms(1) this] obtain w where "map_of b k = Some w" by blast
    then have "(k, w) \<in> set b" by (rule map_of_SomeD)
    then show "k \<in> fst ` set b" by force
  qed
  from assms(1) have len: "length a = length b" by simp
  have "card (fst ` set a) = length a" "card (fst ` set b) = length b"
    using assms(2,3) distinct_card [of "map fst a"] distinct_card [of "map fst b"] by simp_all
  with len have "card (fst ` set a) = card (fst ` set b)" by simp
  with sub show ?thesis by (simp add: card_subset_eq)
qed

lemma py_eq_dict_get:
  assumes "wf_json (JObj a)" and "wf_json (JObj b)" and "py_eq (JObj a) (JObj b)"
    and "py_eq dflt dflt"
  shows "py_eq (dict_get a k dflt) (dict_get b k dflt)"
proof (cases "map_of a k")
  case None
  then have "k \<notin> fst ` set a" by (simp add: map_of_eq_None_iff)
  with py_eq_keys [OF assms(3)] assms(1,2) have "k \<notin> fst ` set b" by simp
  then have "map_of b k = None" by (simp add: map_of_eq_None_iff)
  with None assms(4) show ?thesis by (simp add: dict_get_def)
next
  case (Some v)
  from py_eq_lookup [OF assms(3) this] Some show ?thesis
    by (auto simp: dict_get_def)
qed

lemma py_eq_JObj: "py_eq (JObj a) y \<Longrightarrow> \<exists>b. y = JObj b"
  by (cases y) simp_all

lemma py_eq_py_get:
  assumes "wf_json x" and "wf_json y" and "py_eq x y" and "py_eq dflt dflt" and "wf_json dflt"
    and "py_get x k dflt = Inr v" and "py_get y k dflt = Inr w"
  shows "py_eq v w \<and> wf_json v \<and> wf_json w"
proof -
  from assms(6) obtain a where x: "x = JObj a" by (cases x) simp_all
  from assms(7) obtain b where y: "y = JObj b" by (cases y) simp_all
  from assms x y have "v = dict_get a k dflt" "w = dict_get b k dflt" by simp_all
  with assms(1-5) x y show ?thesis
    by (simp add: py_eq_dict_get wf_json_dict_get)
qed

lemma extract_schema_cong:
  assumes "wf_json r" and "wf_json r'" and "py_eq r r'"
    and "extract_schema r = Inr s" and "extract_schema r' = Inr s'"
  shows "py_eq s s'"
proof -
  from assms(4) obtain c jc where
    c: "py_get r ''content'' (JObj []) = Inr c"
    and jc: "py_get c ''application/json'' (JObj []) = Inr jc"
    and s: "py_get jc ''schema'' JNull = Inr s"
    by (auto simp: extract_schema_def split: sum.splits)
  from assms(5) obtain c' jc' where
    c': "py_get r' ''content'' (JObj []) = Inr c'"
    and jc': "py_get c' ''application/json'' (JObj []) = Inr jc'"
    and s': "py_get jc' ''schema'' JNull = Inr s'"
    by (auto simp: extract_schema_def split: sum.splits)
  have e: "py_eq (JObj []) (JObj [])" "wf_json (JObj [])" "py_eq JNull JNull" "wf_json JNull"
    by simp_all
  from py_eq_py_get [OF assms(1,2,3) e(1,2) c c']
  have 1: "py_eq c c'" "wf_json c" "wf_json c'" by simp_all
  from py_eq_py_get [OF 1(2,3,1) e(1,2) jc jc']
  have 2: "py_eq jc jc'" "wf_json jc" "wf_json jc'" by simp_all
  from py_eq_py_get [OF 2(2,3,1) e(3,4) s s'] show ?thesis by simp
qed

lemma operations_differ:
  assumes "wf_json old_op" and "wf_json new_op"
    and "py_get old_op ''responses'' (JObj []) = Inr (JObj old_rs)"
    and "py_get new_op ''responses'' (JObj []) = Inr (JObj new_rs)"
    and "map_of old_rs code = Some old_response"
    and "map_of new_rs code = Some new_response"
    and "extract_schema old_response = Inr old_schema"
    and "extract_schema new_response = Inr new_schema"
    and "\<not> py_eq old_schema new_schema"
  shows "\<not> py_eq old_op new_op"
proof
  assume eq: "py_eq old_op new_op"
  have e: "py_eq (JObj []) (JObj [])" "wf_json (JObj [])" by simp_all
  from py_eq_py_get [OF assms(1,2) eq e assms(3,4)]
  have rs: "py_eq (JObj old_rs) (JObj new_rs)" "wf_json (JObj old_rs)" "wf_json (JObj new_rs)"
    by simp_all
  from py_eq_lookup [OF rs(1) assms(5)] assms(6) have "py_eq old_response new_response"
    by simp
  moreover from wf_json_lookup [OF rs(2) assms(5)] have "wf_json old_response" .
  moreover from wf_json_lookup [OF rs(3) assms(6)] have "wf_json new_response" .
  ultimately have "py_eq old_schema new_schema"
    using assms(7,8) by (metis extract_schema_cong)
  with assms(9) show False by simp
qed

lemma changed_schemas_loop_entry:
  assumes "changed_schemas_loop path meth old_rs (JObj new_rs) b = Inr b'"
    and "(code, old_response) \<in> set old_rs"
    and "map_of new_rs code = Some new_response"
    and "extract_schema old_response = Inr old_schema"
    and "extract_schema new_response = Inr new_schema"
    and "\<not> py_eq old_schema new_schema"
  shows "response_schema_changed meth path code \<in> set b'"
proof -
  let ?body = "\<lambda>item breaking.
          and_then (as_dict (JObj new_rs))
            (\<lambda>new_rs.
               case map_of new_rs (fst item) of
                 None \<Rightarrow> Inr breaking
               | Some new_response \<Rightarrow>
                   and_then (extract_schema (snd item))
                     (\<lambda>old_schema.
                        and_then (extract_schema new_response)
                          (\<lambda>new_schema.
                             if \<not> py_eq old_schema new_schema
                             then Inr (breaking @
                                    [response_schema_changed meth path (fst item)])
                             else Inr breaking)))"
  have "\<exists>t t'. more_breaking b t \<and> ?body (code, old_response) t = Inr t' \<and> more_breaking t' b'"
  proof (rule for_each_step [OF assms(1) [unfolded changed_schemas_loop_def] assms(2)])
    show "more_breaking t t'" if "?body x t = Inr t'" for x t t'
      using that by (rule changed_schemas_body_more)
    show "more_breaking t t" for t by (rule more_breaking_refl)
    show "more_breaking a c" if "more_breaking a b" "more_breaking b c" for a b c
      using that by (rule more_breaking_trans)
  qed
  then obtain t t' where step: "?body (code, old_response) t = Inr t'"
    and g: "more_breaking t' b'"
    by blast
  from step assms(3-6) have "t' = t @ [response_schema_changed meth path code]"
    by simp
  with g show ?thesis by (auto simp: more_breaking_def)
qed

lemma check_breaking_changes_entry:
  assumes "check_breaking_changes path meth old_op new_op = Inr breaking"
    and "py_get old_op ''responses'' (JObj []) = Inr (JObj old_rs)"
    and "py_get new_op ''responses'' (JObj []) = Inr (JObj new_rs)"
    and "map_of old_rs code = Some old_response"
    and "map_of new_rs code = Some new_response"
    and "extract_schema old_response = Inr old_schema"
    and "extract_schema new_response = Inr new_schema"
    and "\<not> py_eq old_schema new_schema"
  shows "response_schema_changed meth path code \<in> set breaking"
proof -
  from assms(1) obtain b1 where
    "changed_schemas_loop path meth old_rs (JObj new_rs) b1 = Inr breaking"
    unfolding check_breaking_changes_def and_then_Inr assms(2,3) by auto
  moreover from assms(4) have "(code, old_response) \<in> set old_rs" by (rule map_of_SomeD)
  ultimately show ?thesis
    using assms(5-8) by (rule changed_schemas_loop_entry)
qed

lemma modified_methods_body_grows:
  fixes t t' :: Changes
  assumes "(case map_of old_ms meth of
            None \<Rightarrow> Inl KeyError
          | Some old_op \<Rightarrow>
              (case map_of new_ms meth of
                 None \<Rightarrow> Inl KeyError
               | Some new_op \<Rightarrow>
                   if \<not> py_eq old_op new_op
                   then and_then (check_breaking_changes path meth old_op new_op)
                          (\<lambda>breaking.
                             Inr (t\<lparr>modified_endpoints := modified_endpoints t @
                                         [upper meth @ '' '' @ path],
                                      breaking_changes := breaking_changes t @ breaking\<rparr>))
                   else Inr t)) = Inr t'"
  shows "grows t t'"
proof -
  have "modified_methods_loop path old_ms new_ms [meth] t = Inr t'"
    using assms by (simp add: modified_methods_loop_def split: sum.splits)
  then show ?thesis by (rule modified_methods_loop_grows)
qed

lemma modified_methods_loop_entry:
  assumes "modified_methods_loop path old_ms new_ms common ch = Inr ch'"
    and "meth \<in> set common"
    and "map_of old_ms meth = Some old_op" and "map_of new_ms meth = Some new_op"
    and "\<not> py_eq old_op new_op"
  shows "\<exists>breaking. check_breaking_changes path meth old_op new_op = Inr breaking \<and>
           set breaking \<subseteq> set (breaking_changes ch') \<and>
           upper meth @ '' '' @ path \<in> set (modified_endpoints ch')"
proof -
  let ?body = "\<lambda>meth ch.
          case map_of old_ms meth of
            None \<Rightarrow> Inl KeyError
          | Some old_op \<Rightarrow>
              (case map_of new_ms meth of
                 None \<Rightarrow> Inl KeyError
               | Some new_op \<Rightarrow>
                   if \<not> py_eq old_op new_op
                   then and_then (check_breaking_changes path meth old_op new_op)
                          (\<lambda>breaking.
                             Inr (ch\<lparr>modified_endpoints := modified_endpoints ch @
                                         [upper meth @ '' '' @ path],
                                      breaking_changes := breaking_changes ch @ breaking\<rparr>))
                   else Inr ch)"
  have "\<exists>t t'. grows ch t \<and> ?body meth t = Inr t' \<and> grows t' ch'"
  proof (rule for_each_step [OF assms(1) [unfolded modified_methods_loop_def] assms(2)])
    show "grows t t'" if "?body x t = Inr t'" for x t t'
      using that by (rule modified_methods_body_grows)
    show "grows t t" for t by (rule grows_refl)
    show "grows a c" if "grows a b" "grows b c" for a b c using that by (rule grows_trans)
  qed
  then obtain t t' where step: "?body meth t = Inr t'" and g: "grows t' ch'"
    by blast
  show ?thesis
  proof (cases "check_breaking_changes path meth old_op new_op")
    case (Inl e)
    with step assms(3-5) show ?thesis by simp
  next
    case (Inr breaking)
    with step assms(3-5) have "t' = t\<lparr>modified_endpoints := modified_endpoints t @
                                         [upper meth @ '' '' @ path],
                                      breaking_changes := breaking_changes t @ breaking\<rparr>"
      by simp
    then have "set breaking \<subseteq> set (breaking_changes t')"
      "upper meth @ '' '' @ path \<in> set (modified_endpoints t')"
      by simp_all
    with g Inr show ?thesis
      unfolding grows_def more_breaking_def by blast
  qed
qed

lemma modified_loop_entry:
  assumes "modified_loop set_order old_ps new_ps ch = Inr ch'"
    and "(path, JObj old_ms) \<in> set old_ps"
    and "map_of new_ps path = Some (JObj new_ms)"
    and "meth \<in> set (set_order (filter (\<lambda>m. map_of new_ms m \<noteq> None) (map fst old_ms)))"
    and "map_of old_ms meth = Some old_op" and "map_of new_ms meth = Some new_op"
    and "\<not> py_eq old_op new_op"
  shows "\<exists>breaking. check_breaking_changes path meth old_op new_op = Inr breaking \<and>
           set breaking \<subseteq> set (breaking_changes ch') \<and>
           upper meth @ '' '' @ path \<in> set (modified_endpoints ch')"
proof -
  let ?body = "\<lambda>item ch.
          case map_of new_ps (fst item) of
            None \<Rightarrow> Inr ch
          | Some new_item \<Rightarrow>
              and_then (dict_items (snd item))
                (\<lambda>old_ms.
                   and_then (dict_items new_item)
                     (\<lambda>new_ms.
                        modified_methods_loop (fst item) old_ms new_ms
                          (set_order (filter (\<lambda>m. map_of new_ms m \<noteq> None) (map fst old_ms)))
                          (ch\<lparr>breaking_changes := breaking_changes ch @
                                map (\<lambda>m. method_removed m (fst item))
                                  (set_order (filter (\<lambda>m. map_of new_ms m = None)
                                     (map fst old_ms)))\<rparr>)))"
  have "\<exists>t t'. grows ch t \<and> ?body (path, JObj old_ms) t = Inr t' \<and> grows t' ch'"
  proof (rule for_each_step [OF assms(1) [unfolded modified_loop_def] assms(2)])
    show "grows t t'" if "?body x t = Inr t'" for x t t'
    proof -
      have "modified_loop set_order [x] new_ps t = Inr t'"
        using that by (simp add: modified_loop_def split: sum.splits)
      then show ?thesis by (rule modified_loop_grows)
    qed
    show "grows t t" for t by (rule grows_refl)
    show "grows a c" if "grows a b" "grows b c" for a b c using that by (rule grows_trans)
  qed
  then obtain t t' where step: "?body (path, JObj old_ms) t = Inr t'" and g: "grows t' ch'"
    by blast
  from step assms(3) have
    "modified_methods_loop path old_ms new_ms
       (set_order (filter (\<lambda>m. map_of new_ms m \<noteq> None) (map fst old_ms)))
       (t\<lparr>breaking_changes := breaking_changes t @
             map (\<lambda>m. method_removed m path)
               (set_order (filter (\<lambda>m. map_of new_ms m = None) (map fst old_ms)))\<rparr>)
     = Inr t'"
    by simp
  from modified_methods_loop_entry [OF this assms(4-7)] g show ?thesis
    unfolding grows_def more_breaking_def by blast
qed

lemma analyze_changes_policy:
  assumes "analyze_changes set_order old_spec new_spec = Inr ch"
  shows "list_all severity_policy (breaking_changes ch)"
proof -
  from assms obtain new_ps changes1 old_ps changes2 where
    a: "added_loop (dict_get old_spec ''paths'' (JObj [])) new_ps no_changes = Inr changes1"
    and r: "removed_loop old_ps new_ps changes1 = Inr changes2"
    and m: "modified_loop set_order old_ps new_ps changes2 = Inr ch"
    unfolding analyze_changes_def and_then_Inr by blast
  from added_loop_grows [OF a] removed_loop_grows [OF r] modified_loop_grows [OF m]
  have "grows no_changes ch" by (blast intro: grows_trans)
  then show ?thesis
    by (simp add: grows_def more_breaking_def no_changes_def list_all_iff)
qed

lemma check_get_user:
  "check_breaking_changes ''/users/{id}'' ''get'' (get_user id_schema) (get_user user_schema)
     = Inr [response_schema_changed ''get'' ''/users/{id}'' ''200'']"
  by code_simp

lemma analyze_user_api:
  "analyze_changes (\<lambda>xs. xs) (user_api id_schema) (user_api user_schema)
     = Inr \<lparr>added_endpoints = [], removed_endpoints = [],
            modified_endpoints = [''GET /users/{id}''],
            breaking_changes = [response_schema_changed ''get'' ''/users/{id}'' ''200'']\<rparr>"
  by code_simp

lemma for_each_total:
  assumes "\<And>x s. x \<in> set xs \<Longrightarrow> P s \<Longrightarrow> \<exists>s'. body x s = Inr s' \<and> P s'" and "P s"
  shows "\<exists>s'. for_each xs body s = Inr s' \<and> P s'"
  using assms
proof (induction xs arbitrary: s)
  case Nil
  then show ?case by simp
next
  case (Cons x xs)
  from Cons.prems(1) [of x s] Cons.prems(2) obtain s1 where
    s1: "body x s = Inr s1" "P s1"
    by auto
  have "\<exists>s'. for_each xs body s1 = Inr s' \<and> P s'"
  proof (rule Cons.IH)
    show "\<exists>s'. body y t = Inr s' \<and> P s'" if "y \<in> set xs" "P t" for y t
      using Cons.prems(1) [of y t] that by simp
    show "P s1" by (rule s1(2))
  qed
  with s1(1) show ?case by simp
qed

lemma dict_set_dicts:
  "list_all (\<lambda>kv. is_dict (snd kv)) acc \<Longrightarrow> is_dict p \<Longrightarrow>
   list_all (\<lambda>kv. is_dict (snd kv)) (dict_set acc n p)"
  by (induction acc) auto

lemma params_by_name_total:
  assumes "list_all parameter_ok ps"
  shows "\<exists>d. params_by_name ps = Inr d \<and> list_all (\<lambda>kv. is_dict (snd kv)) d"
  unfolding params_by_name_def
proof (rule for_each_total)
  show "list_all (\<lambda>kv. is_dict (snd kv)) []" by simp
  show "\<exists>s'. (case name_key x of Inl e \<Rightarrow> Inl e | Inr n \<Rightarrow> Inr (dict_set s n x)) = Inr s' \<and>
          list_all (\<lambda>kv. is_dict (snd kv)) s'"
    if "x \<in> set ps" "list_all (\<lambda>kv. is_dict (snd kv)) s" for x s
  proof -
    from that(1) assms have ok: "parameter_ok x" by (simp add: list_all_iff)
    then obtain d n where x: "x = JObj d" and n: "map_of d ''name'' = Some n" and h: "hashable n"
      by (auto simp: parameter_ok_def split: json.splits option.splits)
    then have "name_key x = Inr n" by simp
    moreover from x have "is_dict x" by (simp add: is_dict_def)
    ultimately show ?thesis
      using dict_set_dicts [OF that(2)] by simp
  qed
qed

lemma removed_parameters_loop_total:
  assumes "list_all (\<lambda>kv. is_dict (snd kv)) old_params"
  shows "\<exists>b'. removed_parameters_loop path meth old_params new_params b = Inr b'"
proof -
  have "\<exists>b'. removed_parameters_loop path meth old_params new_params b = Inr b' \<and> True"
    unfolding removed_parameters_loop_def
  proof (rule for_each_total)
    show True ..
    show "\<exists>s'. and_then (py_get (snd x) ''required'' (JBool False))
            (\<lambda>required.
               if truthy required \<and> \<not> has_key new_params (fst x)
               then Inr (s @ [required_parameter_removed meth path (fst x)])
               else Inr s) = Inr s' \<and> True"
      if "x \<in> set old_params" for x s
    proof -
      from that assms have "is_dict (snd x)" by (simp add: list_all_iff)
      then obtain d where "snd x = JObj d"
        by (cases "snd x") (simp_all add: is_dict_def)
      then show ?thesis by simp
    qed
  qed
  then show ?thesis by simp
qed

lemma extract_schema_total: "response_ok r \<Longrightarrow> \<exists>s. extract_schema r = Inr s"
  by (auto simp: response_ok_def extract_schema_def is_dict_def split: json.splits)

lemma changed_schemas_loop_total:
  assumes "list_all (\<lambda>kv. response_ok (snd kv)) old_rs"
    and "list_all (\<lambda>kv. response_ok (snd kv)) new_rs"
  shows "\<exists>b'. changed_schemas_loop path meth old_rs (JObj new_rs) b = Inr b'"
proof -
  have "\<exists>b'. changed_schemas_loop path meth old_rs (JObj new_rs) b = Inr b' \<and> True"
    unfolding changed_schemas_loop_def
  proof (rule for_each_total)
    show True ..
    show "\<exists>s'. and_then (as_dict (JObj new_rs))
            (\<lambda>new_rs.
               case map_of new_rs (fst x) of
                 None \<Rightarrow> Inr s
               | Some new_response \<Rightarrow>
                   and_then (extract_schema (snd x))
                     (\<lambda>old_schema.
                        and_then (extract_schema new_response)
                          (\<lambda>new_schema.
                             if \<not> py_eq old_schema new_schema
                             then Inr (s @ [response_schema_changed meth path (fst x)])
                             else Inr s))) = Inr s' \<and> True"
      if "x \<in> set old_rs" for x s
    proof (cases "map_of new_rs (fst x)")
      case None
      then show ?thesis by simp
    next
      case (Some r)
      then have "(fst x, r) \<in> set new_rs" by (rule map_of_SomeD)
      with assms(2) have "response_ok r" by (auto simp: list_all_iff)
      from extract_schema_total [OF this] obtain sn where sn: "extract_schema r = Inr sn" ..
      from that assms(1) have "response_ok (snd x)" by (simp add: list_all_iff)
      from extract_schema_total [OF this] obtain so where so: "extract_schema (snd x) = Inr so" ..
      from Some sn so show ?thesis by simp
    qed
  qed
  then show ?thesis by simp
qed

lemma check_breaking_changes_total:
  assumes "operation_ok old_op" and "operation_ok new_op"
  shows "\<exists>breaking. check_breaking_changes path meth old_op new_op = Inr breaking"
proof -
  from assms(1) obtain d ps rs where old: "old_op = JObj d"
    and ps: "dict_get d ''parameters'' (JList []) = JList ps" "list_all parameter_ok ps"
    and rs: "dict_get d ''responses'' (JObj []) = JObj rs" "list_all (\<lambda>kv. response_ok (snd kv)) rs"
    by (auto simp: operation_ok_def split: json.splits)
  from assms(2) obtain d' ps' rs' where new: "new_op = JObj d'"
    and ps': "dict_get d' ''parameters'' (JList []) = JList ps'" "list_all parameter_ok ps'"
    and rs': "dict_get d' ''responses'' (JObj []) = JObj rs'"
      "list_all (\<lambda>kv. response_ok (snd kv)) rs'"
    by (auto simp: operation_ok_def split: json.splits)
  from params_by_name_total [OF ps(2)] obtain old_params where
    op: "params_by_name ps = Inr old_params" "list_all (\<lambda>kv. is_dict (snd kv)) old_params"
    by blast
  from params_by_name_total [OF ps'(2)] obtain new_params where
    np: "params_by_name ps' = Inr new_params"
    by blast
  from removed_parameters_loop_total [OF op(2)] obtain b1 where
    b1: "removed_parameters_loop path meth old_params new_params [] = Inr b1"
    by blast
  from changed_schemas_loop_total [OF rs(2) rs'(2)] obtain b2 where
    b2: "changed_schemas_loop path meth rs (JObj rs') b1 = Inr b2"
    by blast
  have "check_breaking_changes path meth old_op new_op = Inr b2"
    by (simp add: check_breaking_changes_def old new ps(1) ps'(1) rs(1) rs'(1) op(1) np b1 b2)
  then show ?thesis ..
qed


lemma item_ok_dict: "item_ok item \<Longrightarrow> \<exists>ms. item = JObj ms \<and> list_all (\<lambda>kv. operation_ok (snd kv)) ms"
  by (cases item) (simp_all add: item_ok_def)

lemma lookup_all: "list_all (\<lambda>kv. P (snd kv)) d \<Longrightarrow> map_of d k = Some v \<Longrightarrow> P v"
  by (auto simp: list_all_iff dest!: map_of_SomeD)

lemma added_loop_total:
  assumes "list_all (\<lambda>kv. item_ok (snd kv)) new_ps"
  shows "\<exists>ch'. added_loop (JObj old_ps) new_ps ch = Inr ch'"
proof -
  have "\<exists>ch'. added_loop (JObj old_ps) new_ps ch = Inr ch' \<and> True"
    unfolding added_loop_def
  proof (rule for_each_total)
    show True ..
    show "\<exists>s'. and_then (as_dict (JObj old_ps))
            (\<lambda>old_ps.
               if map_of old_ps (fst x) = None
               then and_then (as_dict (snd x))
                      (\<lambda>ms. Inr (s\<lparr>added_endpoints := added_endpoints s @
                                    map (\<lambda>m. upper (fst m) @ '' '' @ fst x) ms\<rparr>))
               else Inr s) = Inr s' \<and> True"
      if "x \<in> set new_ps" for x and s :: Changes
    proof -
      from that assms have "item_ok (snd x)" by (simp add: list_all_iff)
      from item_ok_dict [OF this] obtain ms where "snd x = JObj ms" by blast
      then show ?thesis by simp
    qed
  qed
  then show ?thesis by simp
qed

lemma removed_loop_total:
  assumes "list_all (\<lambda>kv. item_ok (snd kv)) old_ps"
  shows "\<exists>ch'. removed_loop old_ps new_ps ch = Inr ch'"
proof -
  have "\<exists>ch'. removed_loop old_ps new_ps ch = Inr ch' \<and> True"
    unfolding removed_loop_def
  proof (rule for_each_total)
    show True ..
    show "\<exists>s'. (if map_of new_ps (fst x) = None
          then and_then (as_dict (snd x))
                 (\<lambda>ms. Inr (s\<lparr>removed_endpoints := removed_endpoints s @
                                 map (\<lambda>m. upper (fst m) @ '' '' @ fst x) ms,
                               breaking_changes := breaking_changes s @
                                 map (\<lambda>m. endpoint_removed (fst m) (fst x)) ms\<rparr>))
          else Inr s) = Inr s' \<and> True"
      if "x \<in> set old_ps" for x and s :: Changes
    proof -
      from that assms have "item_ok (snd x)" by (simp add: list_all_iff)
      from item_ok_dict [OF this] obtain ms where "snd x = JObj ms" by blast
      then show ?thesis by simp
    qed
  qed
  then show ?thesis by simp
qed

lemma modified_methods_loop_total:
  assumes "list_all (\<lambda>kv. operation_ok (snd kv)) old_ms"
    and "list_all (\<lambda>kv. operation_ok (snd kv)) new_ms"
    and "\<And>m. m \<in> set common \<Longrightarrow> map_of old_ms m \<noteq> None \<and> map_of new_ms m \<noteq> None"
  shows "\<exists>ch'. modified_methods_loop path old_ms new_ms common ch = Inr ch'"
proof -
  have "\<exists>ch'. modified_methods_loop path old_ms new_ms common ch = Inr ch' \<and> True"
    unfolding modified_methods_loop_def
  proof (rule for_each_total)
    show True ..
    show "\<exists>s'. (case map_of old_ms x of
            None \<Rightarrow> Inl KeyError
          | Some old_op \<Rightarrow>
              (case map_of new_ms x of
                 None \<Rightarrow> Inl KeyError
               | Some new_op \<Rightarrow>
                   if \<not> py_eq old_op new_op
                   then and_then (check_breaking_changes path x old_op new_op)
                          (\<lambda>breaking.
                             Inr (s\<lparr>modified_endpoints := modified_endpoints s @
                                         [upper x @ '' '' @ path],
                                      breaking_changes := breaking_changes s @ breaking\<rparr>))
                   else Inr s)) = Inr s' \<and> True"
      if "x \<in> set common" for x and s :: Changes
    proof -
      from assms(3) [OF that] obtain old_op new_op where
        o: "map_of old_ms x = Some old_op" and n: "map_of new_ms x = Some new_op"
        by auto
      from lookup_all [OF assms(1) o] lookup_all [OF assms(2) n]
      have "operation_ok old_op" "operation_ok new_op" .
      from check_breaking_changes_total [OF this, of path x] obtain breaking where
        "check_breaking_changes path x old_op new_op = Inr breaking" ..
      with o n show ?thesis by simp
    qed
  qed
  then show ?thesis by simp
qed

lemma modified_loop_total:
  assumes "list_all (\<lambda>kv. item_ok (snd kv)) old_ps"
    and "list_all (\<lambda>kv. item_ok (snd kv)) new_ps"
    and "\<And>xs. set (set_order xs) \<subseteq> set xs"
  shows "\<exists>ch'. modified_loop set_order old_ps new_ps ch = Inr ch'"
proof -
  have "\<exists>ch'. modified_loop set_order old_ps new_ps ch = Inr ch' \<and> True"
    unfolding modified_loop_def
  proof (rule for_each_total)
    show True ..
    show "\<exists>s'. (case map_of new_ps (fst x) of
            None \<Rightarrow> Inr s
          | Some new_item \<Rightarrow>
              and_then (dict_items (snd x))
                (\<lambda>old_ms.
                   and_then (dict_items new_item)
                     (\<lambda>new_ms.
                        modified_methods_loop (fst x) old_ms new_ms
                          (set_order (filter (\<lambda>m. map_of new_ms m \<noteq> None) (map fst old_ms)))
                          (s\<lparr>breaking_changes := breaking_changes s @
                                map (\<lambda>m. method_removed m (fst x))
                                  (set_order (filter (\<lambda>m. map_of new_ms m = None)
                                     (map fst old_ms)))\<rparr>)))) = Inr s' \<and> True"
      if "x \<in> set old_ps" for x and s :: Changes
    proof (cases "map_of new_ps (fst x)")
      case None
      then show ?thesis by simp
    next
      case (Some new_item)
      from lookup_all [OF assms(2) Some] have "item_ok new_item" .
      from item_ok_dict [OF this] obtain new_ms where
        n: "new_item = JObj new_ms" "list_all (\<lambda>kv. operation_ok (snd kv)) new_ms"
        by blast
      from that assms(1) have "item_ok (snd x)" by (simp add: list_all_iff)
      from item_ok_dict [OF this] obtain old_ms where
        o: "snd x = JObj old_ms" "list_all (\<lambda>kv. operation_ok (snd kv)) old_ms"
        by blast
      have c: "map_of old_ms m \<noteq> None \<and> map_of new_ms m \<noteq> None"
        if "m \<in> set (set_order (filter (\<lambda>m. map_of new_ms m \<noteq> None) (map fst old_ms)))" for m
      proof -
        from that assms(3) have "m \<in> set (filter (\<lambda>m. map_of new_ms m \<noteq> None) (map fst old_ms))"
          by blast
        then show ?thesis by (auto simp: map_of_eq_None_iff)
      qed
      from modified_methods_loop_total [OF o(2) n(2) c] Some n(1) o(1)
      show ?thesis by simp
    qed
  qed
  then show ?thesis by simp
qed

lemma analyze_changes_total:
  assumes "document_ok old_spec" and "document_ok new_spec"
    and "\<And>xs. set (set_order xs) \<subseteq> set xs"
  shows "\<exists>ch. analyze_changes set_order old_spec new_spec = Inr ch"
proof -
  from assms(1) obtain old_ps where o: "dict_get old_spec ''paths'' (JObj []) = JObj old_ps"
    "list_all (\<lambda>kv. item_ok (snd kv)) old_ps"
    by (auto simp: document_ok_def split: json.splits)
  from assms(2) obtain new_ps where n: "dict_get new_spec ''paths'' (JObj []) = JObj new_ps"
    "list_all (\<lambda>kv. item_ok (snd kv)) new_ps"
    by (auto simp: document_ok_def split: json.splits)
  from added_loop_total [OF n(2)] obtain c1 where
    c1: "added_loop (JObj old_ps) new_ps no_changes = Inr c1" by blast
  from removed_loop_total [OF o(2)] obtain c2 where
    c2: "removed_loop old_ps new_ps c1 = Inr c2" by blast
  from modified_loop_total [OF o(2) n(2) assms(3)] obtain c3 where
    c3: "modified_loop set_order old_ps new_ps c2 = Inr c3" by blast
  have "analyze_changes set_order old_spec new_spec = Inr c3"
    by (simp add: analyze_changes_def o(1) n(1) c1 c2 c3)
  then show ?thesis ..
qed


text \<open>
  The claim C4 is stated for every pair of operations. A parameter given by reference,
  \<^verbatim>\<open>{"$ref": ...}\<close>, has no \<^verbatim>\<open>name\<close>: \<^verbatim>\<open>p['name']\<close> raises
  \<^verbatim>\<open>KeyError\<close> before the responses are compared, and for two operations with such a
  parameter and different schemas for the status code 200 nothing is recorded.
\<close>

theorem response_schema_counterexample:
  "wf_json (ref_operation id_schema) \<and> wf_json (ref_operation user_schema) \<and>
   py_get (ref_operation id_schema) ''responses'' (JObj [])
     = Inr (JObj [(''200'', json_response id_schema)]) \<and>
   py_get (ref_operation user_schema) ''responses'' (JObj [])
     = Inr (JObj [(''200'', json_response user_schema)]) \<and>
   extract_schema (json_response id_schema) = Inr (JObj id_schema) \<and>
   extract_schema (json_response user_schema) = Inr (JObj user_schema) \<and>
   \<not> py_eq (JObj id_schema) (JObj user_schema) \<and>
   check_breaking_changes ''/users/{id}'' ''get'' (ref_operation id_schema)
     (ref_operation user_schema) = Inl KeyError \<and>
   analyze_changes (\<lambda>xs. xs) (ref_api id_schema) (ref_api user_schema) = Inl KeyError"
proof (intro conjI)
  show "wf_json (ref_operation id_schema)" "wf_json (ref_operation user_schema)"
    by (simp_all add: ref_operation_def json_response_def id_schema_def user_schema_def)
  show "py_get (ref_operation id_schema) ''responses'' (JObj [])
     = Inr (JObj [(''200'', json_response id_schema)])"
    "py_get (ref_operation user_schema) ''responses'' (JObj [])
     = Inr (JObj [(''200'', json_response user_schema)])"
    by (simp_all add: ref_operation_def dict_get_def)
  show "extract_schema (json_response id_schema) = Inr (JObj id_schema)"
    "extract_schema (json_response user_schema) = Inr (JObj user_schema)"
    by (simp_all add: extract_schema_def json_response_def dict_get_def)
  show "\<not> py_eq (JObj id_schema) (JObj user_schema)"
    by (simp add: id_schema_def user_schema_def)
  show "check_breaking_changes ''/users/{id}'' ''get'' (ref_operation id_schema)
     (ref_operation user_schema) = Inl KeyError"
    by code_simp
  show "analyze_changes (\<lambda>xs. xs) (ref_api id_schema) (ref_api user_schema) = Inl KeyError"
    by code_simp
qed

text \<open>
  C4, amended. Take an old and a new operation whose \<^verbatim>\<open>responses\<close> both declare a
  status code, with schemas at \<^verbatim>\<open>content["application/json"].schema\<close> that are not
  equal by value. When both operations are in order, \<^verbatim>\<open>_check_breaking_changes\<close>
  returns; whenever it returns, it has recorded the breaking change of type
  \<^verbatim>\<open>response_schema_changed\<close> with that status code and severity
  \<^verbatim>\<open>warning\<close>, and no breaking change of that type with another severity. Two such
  operations are not equal by value: for two documents that have them at the same path and
  method, the analysis returns when both documents are in order and, whenever it
  returns, lists the endpoint as modified and has recorded that breaking change, of
  severity \<^verbatim>\<open>warning\<close>.
\<close>

theorem response_schema_change_is_warning:
  assumes "wf_json old_op" and "wf_json new_op"
    and "py_get old_op ''responses'' (JObj []) = Inr (JObj old_rs)"
    and "py_get new_op ''responses'' (JObj []) = Inr (JObj new_rs)"
    and "map_of old_rs code = Some old_response"
    and "map_of new_rs code = Some new_response"
    and "extract_schema old_response = Inr old_schema"
    and "extract_schema new_response = Inr new_schema"
    and "\<not> py_eq old_schema new_schema"
  shows "(operation_ok old_op \<and> operation_ok new_op \<longrightarrow>
            (\<exists>breaking. check_breaking_changes path meth old_op new_op = Inr breaking)) \<and>
         (\<forall>breaking. check_breaking_changes path meth old_op new_op = Inr breaking \<longrightarrow>
            [(''type'', JStr ''response_schema_changed''),
               (''endpoint'', JStr (upper meth @ '' '' @ path)),
               (''status_code'', JStr code),
               (''severity'', JStr ''warning'')] \<in> set breaking \<and>
            (\<forall>bc \<in> set breaking.
               map_of bc ''type'' = Some (JStr ''response_schema_changed'') \<longrightarrow>
               map_of bc ''severity'' = Some (JStr ''warning''))) \<and>
         (\<forall>set_order old_spec new_spec old_ms new_ms.
            (\<forall>xs. set (set_order xs) = set xs) \<and>
            map_of (paths_of old_spec) path = Some (JObj old_ms) \<and>
            map_of (paths_of new_spec) path = Some (JObj new_ms) \<and>
            map_of old_ms meth = Some old_op \<and> map_of new_ms meth = Some new_op \<longrightarrow>
              (document_ok old_spec \<and> document_ok new_spec \<longrightarrow>
                 (\<exists>ch. analyze_changes set_order old_spec new_spec = Inr ch)) \<and>
              (\<forall>ch. analyze_changes set_order old_spec new_spec = Inr ch \<longrightarrow>
                 [(''type'', JStr ''response_schema_changed''),
               (''endpoint'', JStr (upper meth @ '' '' @ path)),
               (''status_code'', JStr code),
               (''severity'', JStr ''warning'')] \<in> set (breaking_changes ch) \<and>
                 upper meth @ '' '' @ path \<in> set (modified_endpoints ch) \<and>
                 (\<forall>bc \<in> set (breaking_changes ch).
                    map_of bc ''type'' = Some (JStr ''response_schema_changed'') \<longrightarrow>
                    map_of bc ''severity'' = Some (JStr ''warning''))))"
proof (intro conjI allI impI)
  assume "operation_ok old_op \<and> operation_ok new_op"
  then show "\<exists>breaking. check_breaking_changes path meth old_op new_op = Inr breaking"
    by (simp add: check_breaking_changes_total)
next
  fix breaking
  assume c: "check_breaking_changes path meth old_op new_op = Inr breaking"
  from check_breaking_changes_entry [OF c assms(3-9)]
  show "[(''type'', JStr ''response_schema_changed''),
               (''endpoint'', JStr (upper meth @ '' '' @ path)),
               (''status_code'', JStr code),
               (''severity'', JStr ''warning'')] \<in> set breaking"
    by (simp add: response_schema_changed_def)
  from check_breaking_changes_policy [OF c]
  show "\<forall>bc \<in> set breaking.
               map_of bc ''type'' = Some (JStr ''response_schema_changed'') \<longrightarrow>
               map_of bc ''severity'' = Some (JStr ''warning'')"
    by (simp add: list_all_iff severity_policy_def)
next
  fix set_order :: "string list \<Rightarrow> string list" and old_spec new_spec old_ms new_ms
  assume h: "(\<forall>xs. set (set_order xs) = set xs) \<and>
            map_of (paths_of old_spec) path = Some (JObj old_ms) \<and>
            map_of (paths_of new_spec) path = Some (JObj new_ms) \<and>
            map_of old_ms meth = Some old_op \<and> map_of new_ms meth = Some new_op"
  assume "document_ok old_spec \<and> document_ok new_spec"
  with h show "\<exists>ch. analyze_changes set_order old_spec new_spec = Inr ch"
    by (simp add: analyze_changes_total)
next
  fix set_order :: "string list \<Rightarrow> string list" and old_spec new_spec old_ms new_ms ch
  assume h: "(\<forall>xs. set (set_order xs) = set xs) \<and>
            map_of (paths_of old_spec) path = Some (JObj old_ms) \<and>
            map_of (paths_of new_spec) path = Some (JObj new_ms) \<and>
            map_of old_ms meth = Some old_op \<and> map_of new_ms meth = Some new_op"
    and an: "analyze_changes set_order old_spec new_spec = Inr ch"
  from h have perm: "\<And>xs. set (set_order xs) = set xs"
    and po: "map_of (paths_of old_spec) path = Some (JObj old_ms)"
    and pn: "map_of (paths_of new_spec) path = Some (JObj new_ms)"
    and mo: "map_of old_ms meth = Some old_op" and mn: "map_of new_ms meth = Some new_op"
    by simp_all
  from an obtain new_ps old_ps changes2 where
    n: "as_dict (dict_get new_spec ''paths'' (JObj [])) = Inr new_ps"
    and o: "as_dict (dict_get old_spec ''paths'' (JObj [])) = Inr old_ps"
    and m: "modified_loop set_order old_ps new_ps changes2 = Inr ch"
    unfolding analyze_changes_def and_then_Inr by blast
  from n have "paths_of new_spec = new_ps"
    by (cases "dict_get new_spec ''paths'' (JObj [])") (simp_all add: paths_of_def)
  with pn have 1: "map_of new_ps path = Some (JObj new_ms)" by simp
  from o have "paths_of old_spec = old_ps"
    by (cases "dict_get old_spec ''paths'' (JObj [])") (simp_all add: paths_of_def)
  with po have 2: "(path, JObj old_ms) \<in> set old_ps" by (simp add: map_of_SomeD)
  from mo have "meth \<in> set (map fst old_ms)"
    by (metis map_of_SomeD fst_conv image_eqI set_map)
  with mn have 3: "meth \<in> set (set_order (filter (\<lambda>m. map_of new_ms m \<noteq> None) (map fst old_ms)))"
    by (simp add: perm)
  have 4: "\<not> py_eq old_op new_op"
    by (rule operations_differ [OF assms])
  from modified_loop_entry [OF m 2 1 3 mo mn 4] obtain breaking where
    c: "check_breaking_changes path meth old_op new_op = Inr breaking"
    and sub: "set breaking \<subseteq> set (breaking_changes ch)"
    and md: "upper meth @ '' '' @ path \<in> set (modified_endpoints ch)"
    by blast
  from check_breaking_changes_entry [OF c assms(3-9)] sub
  show "[(''type'', JStr ''response_schema_changed''),
               (''endpoint'', JStr (upper meth @ '' '' @ path)),
               (''status_code'', JStr code),
               (''severity'', JStr ''warning'')] \<in> set (breaking_changes ch)"
    by (auto simp: response_schema_changed_def)
  from md show "upper meth @ '' '' @ path \<in> set (modified_endpoints ch)" .
  from analyze_changes_policy [OF an]
  show "\<forall>bc \<in> set (breaking_changes ch).
                 map_of bc ''type'' = Some (JStr ''response_schema_changed'') \<longrightarrow>
                 map_of bc ''severity'' = Some (JStr ''warning'')"
    by (simp add: list_all_iff severity_policy_def)
qed


theorem response_schema_change_is_warning_witness:
  "wf_json (get_user id_schema) \<and> wf_json (get_user user_schema) \<and>
   operation_ok (get_user id_schema) \<and> operation_ok (get_user user_schema) \<and>
   document_ok (user_api id_schema) \<and> document_ok (user_api user_schema) \<and>
   \<not> py_eq (JObj id_schema) (JObj user_schema) \<and>
   (\<exists>breaking.
      check_breaking_changes ''/users/{id}'' ''get'' (get_user id_schema) (get_user user_schema)
        = Inr breaking \<and>
      [(''type'', JStr ''response_schema_changed''), (''endpoint'', JStr ''GET /users/{id}''),
       (''status_code'', JStr ''200''), (''severity'', JStr ''warning'')] \<in> set breaking) \<and>
   (\<exists>ch.
      analyze_changes (\<lambda>xs. xs) (user_api id_schema) (user_api user_schema) = Inr ch \<and>
      [(''type'', JStr ''response_schema_changed''), (''endpoint'', JStr ''GET /users/{id}''),
       (''status_code'', JStr ''200''), (''severity'', JStr ''warning'')]
        \<in> set (breaking_changes ch) \<and>
      ''GET /users/{id}'' \<in> set (modified_endpoints ch))"
proof -
  have w: "wf_json (get_user id_schema)" "wf_json (get_user user_schema)"
    by (simp_all add: get_user_def json_response_def id_schema_def user_schema_def)
  have r: "py_get (get_user id_schema) ''responses'' (JObj [])
             = Inr (JObj [(''200'', json_response id_schema)])"
    "py_get (get_user user_schema) ''responses'' (JObj [])
             = Inr (JObj [(''200'', json_response user_schema)])"
    by (simp_all add: get_user_def dict_get_def)
  have m: "map_of [(''200'', json_response id_schema)] ''200'' = Some (json_response id_schema)"
    "map_of [(''200'', json_response user_schema)] ''200'' = Some (json_response user_schema)"
    by simp_all
  have e: "extract_schema (json_response id_schema) = Inr (JObj id_schema)"
    "extract_schema (json_response user_schema) = Inr (JObj user_schema)"
    by (simp_all add: extract_schema_def json_response_def dict_get_def)
  have d: "\<not> py_eq (JObj id_schema) (JObj user_schema)"
    by (simp add: id_schema_def user_schema_def)
  have ok: "operation_ok (get_user schema)" for schema
    by (simp add: operation_ok_def get_user_def dict_get_def response_ok_def json_response_def
        is_dict_def)
  have dok: "document_ok (user_api schema)" for schema
    by (simp add: document_ok_def user_api_def dict_get_def item_ok_def ok)
  have po: "map_of (paths_of (user_api id_schema)) ''/users/{id}''
              = Some (JObj [(''get'', get_user id_schema)])"
    and pn: "map_of (paths_of (user_api user_schema)) ''/users/{id}''
              = Some (JObj [(''get'', get_user user_schema)])"
    by (simp_all add: paths_of_def user_api_def dict_get_def)
  have u: "upper ''get'' @ '' '' @ ''/users/{id}'' = ''GET /users/{id}''"
    by (simp add: upper_methods)
  note t = response_schema_change_is_warning
    [OF w r m e d, of "''/users/{id}''" "''get''", unfolded u]
  from t ok have 1: "\<exists>breaking.
      check_breaking_changes ''/users/{id}'' ''get'' (get_user id_schema) (get_user user_schema)
        = Inr breaking \<and>
      [(''type'', JStr ''response_schema_changed''), (''endpoint'', JStr ''GET /users/{id}''),
       (''status_code'', JStr ''200''), (''severity'', JStr ''warning'')] \<in> set breaking"
    by blast
  note t3 = t [THEN conjunct2, THEN conjunct2,
      THEN spec [where x = "\<lambda>xs :: string list. xs"],
      THEN spec [where x = "user_api id_schema"],
      THEN spec [where x = "user_api user_schema"],
      THEN spec [where x = "[(''get'', get_user id_schema)]"],
      THEN spec [where x = "[(''get'', get_user user_schema)]"]]
  from t3 po pn dok have 2: "\<exists>ch.
      analyze_changes (\<lambda>xs. xs) (user_api id_schema) (user_api user_schema) = Inr ch \<and>
      [(''type'', JStr ''response_schema_changed''), (''endpoint'', JStr ''GET /users/{id}''),
       (''status_code'', JStr ''200''), (''severity'', JStr ''warning'')]
        \<in> set (breaking_changes ch) \<and>
      ''GET /users/{id}'' \<in> set (modified_endpoints ch)"
    by simp blast
  from w ok dok d 1 2 show ?thesis by blast
qed

section \<open>Exit codes\<close>

lemma summary_counts:
  "map_of (get_summary v) ''critical'' = Some (count_severity CRITICAL (issues v))"
  "map_of (get_summary v) ''error'' = Some (count_severity ERROR (issues v))"
  by (simp_all add: get_summary_def)

lemma blocking_counts:
  "blocking v \<longleftrightarrow> count_severity CRITICAL (issues v) > 0 \<or> count_severity ERROR (issues v) > 0"
  by (auto simp: blocking_def count_severity_def list_ex_iff filter_empty_conv)

lemma exit_code_Raises:
  "exit_code (Raises x) = (if x = KeyboardInterrupt then 130 else 1)"
  by (cases x) simp_all

text \<open>
  The claim C9 says that each of the three subcommands exits with 1 whenever critical or
  error-severity issues exist. \<^verbatim>\<open>generate_report_command\<close> runs the validation and
  returns 0 once the report is written, whatever the issues; only
  \<^verbatim>\<open>validate_command\<close> reads the summary.
\<close>

theorem exit_code_counterexample:
  "blocking failed_validator \<and>
   main (Generate_Report \<lparr>report_validation = Returns failed_validator, api_key = True,
                           report_written = Returns ()\<rparr>) = 0"
  by (simp add: blocking_def failed_validator_def generate_report_command_def)

text \<open>
  C9, amended. \<^verbatim>\<open>validate\<close> exits with 0 when it completes with no critical and
  no error-severity issue and with 1 when it completes with one; \<^verbatim>\<open>detect-drift\<close>
  exits with 0 whenever it completes; \<^verbatim>\<open>generate-report\<close> exits with 0 when the
  report is written, whatever the issues, and with 1 when the API key is missing or the
  report fails. For every subcommand an exception that is not handled gives 1 and an
  interrupt gives 130, and no other exit code is returned.
\<close>

theorem exit_codes:
  "(validation env = Returns v \<and>
    (ai_enabled env \<longrightarrow> ai_analysis env \<noteq> Raises KeyboardInterrupt) \<and>
    (output_given env \<longrightarrow> export_report env = Returns ())
      \<longrightarrow> main (Validate env) = (if blocking v then 1 else 0)) \<and>
   (detection denv = Returns d \<and> (changelog denv \<longrightarrow> changelog_written denv = Returns ())
      \<longrightarrow> main (Detect_Drift denv) = 0) \<and>
   (report_validation renv = Returns w
      \<longrightarrow> main (Generate_Report renv) =
            (if api_key renv
             then (case report_written renv of
                     Returns u \<Rightarrow> 0
                   | Raises KeyboardInterrupt \<Rightarrow> 130
                   | Raises Exception \<Rightarrow> 1)
             else 1)) \<and>
   (validation env = Raises x
      \<longrightarrow> main (Validate env) = (if x = KeyboardInterrupt then 130 else 1)) \<and>
   (validation env = Returns v \<and> ai_enabled env \<and> ai_analysis env = Raises KeyboardInterrupt
      \<longrightarrow> main (Validate env) = 130) \<and>
   (validation env = Returns v \<and>
    (ai_enabled env \<longrightarrow> ai_analysis env \<noteq> Raises KeyboardInterrupt) \<and>
    output_given env \<and> export_report env = Raises x
      \<longrightarrow> main (Validate env) = (if x = KeyboardInterrupt then 130 else 1)) \<and>
   (detection denv = Raises x
      \<longrightarrow> main (Detect_Drift denv) = (if x = KeyboardInterrupt then 130 else 1)) \<and>
   (detection denv = Returns d \<and> changelog denv \<and> changelog_written denv = Raises x
      \<longrightarrow> main (Detect_Drift denv) = (if x = KeyboardInterrupt then 130 else 1)) \<and>
   (report_validation renv = Raises x
      \<longrightarrow> main (Generate_Report renv) = (if x = KeyboardInterrupt then 130 else 1)) \<and>
   main cmd \<in> {0, 1, 130}"
proof (intro conjI impI)
  assume "validation env = Returns v \<and>
    (ai_enabled env \<longrightarrow> ai_analysis env \<noteq> Raises KeyboardInterrupt) \<and>
    (output_given env \<longrightarrow> export_report env = Returns ())"
  then show "main (Validate env) = (if blocking v then 1 else 0)"
    by (auto simp: validate_command_def summary_counts blocking_counts Let_def
        split: outcome.splits exn.splits)
next
  assume "detection denv = Returns d \<and> (changelog denv \<longrightarrow> changelog_written denv = Returns ())"
  then show "main (Detect_Drift denv) = 0"
    by (auto simp: detect_drift_command_def)
next
  assume "report_validation renv = Returns w"
  then show "main (Generate_Report renv) =
            (if api_key renv
             then (case report_written renv of
                     Returns u \<Rightarrow> 0
                   | Raises KeyboardInterrupt \<Rightarrow> 130
                   | Raises Exception \<Rightarrow> 1)
             else 1)"
    by (auto simp: generate_report_command_def split: outcome.splits exn.splits)
next
  assume "validation env = Raises x"
  then show "main (Validate env) = (if x = KeyboardInterrupt then 130 else 1)"
    by (cases x) (simp_all add: validate_command_def)
next
  assume "validation env = Returns v \<and> ai_enabled env \<and> ai_analysis env = Raises KeyboardInterrupt"
  then show "main (Validate env) = 130"
    by (simp add: validate_command_def)
next
  assume "validation env = Returns v \<and>
    (ai_enabled env \<longrightarrow> ai_analysis env \<noteq> Raises KeyboardInterrupt) \<and>
    output_given env \<and> export_report env = Raises x"
  then show "main (Validate env) = (if x = KeyboardInterrupt then 130 else 1)"
    by (cases x) (auto simp: validate_command_def split: outcome.splits exn.splits)
next
  assume "detection denv = Raises x"
  then show "main (Detect_Drift denv) = (if x = KeyboardInterrupt then 130 else 1)"
    by (cases x) (simp_all add: detect_drift_command_def)
next
  assume "detection denv = Returns d \<and> changelog denv \<and> changelog_written denv = Raises x"
  then show "main (Detect_Drift denv) = (if x = KeyboardInterrupt then 130 else 1)"
    by (cases x) (simp_all add: detect_drift_command_def)
next
  assume "report_validation renv = Raises x"
  then show "main (Generate_Report renv) = (if x = KeyboardInterrupt then 130 else 1)"
    by (cases x) (simp_all add: generate_report_command_def)
next
  show "main cmd \<in> {0, 1, 130}"
  proof (cases cmd)
    case No_Command
    then show ?thesis by simp
  next
    case (Validate e)
    then show ?thesis
      by (auto simp: validate_command_def summary_counts Let_def exit_code_Raises
          split: outcome.splits exn.splits if_splits)
  next
    case (Detect_Drift e)
    then show ?thesis
      by (auto simp: detect_drift_command_def exit_code_Raises
          split: outcome.splits exn.splits if_splits)
  next
    case (Generate_Report e)
    then show ?thesis
      by (auto simp: generate_report_command_def exit_code_Raises
          split: outcome.splits exn.splits if_splits)
  qed
qed

theorem exit_codes_witness:
  "blocking failed_validator \<and> \<not> blocking (local_validator users_spec) \<and>
   main (Validate (quiet_run (Returns failed_validator))) = 1 \<and>
   main (Validate (quiet_run (Returns (local_validator users_spec)))) = 0 \<and>
   main (Validate (quiet_run (Raises KeyboardInterrupt))) = 130 \<and>
   main (Validate (quiet_run (Raises Exception))) = 1 \<and>
   main (Detect_Drift first_run) = 0 \<and>
   main (Generate_Report (report_run True)) = 0 \<and>
   main (Generate_Report (report_run False)) = 1"
proof -
  have b: "blocking failed_validator"
    by (simp add: blocking_def failed_validator_def)
  have nb: "\<not> blocking (local_validator users_spec)"
    by (simp add: blocking_def local_validator_simps)
  have 1: "main (Validate (quiet_run (Returns failed_validator))) = 1"
    using exit_codes [where env = "quiet_run (Returns failed_validator)"
        and v = failed_validator] b
    by (simp add: quiet_run_def)
  have 2: "main (Validate (quiet_run (Returns (local_validator users_spec)))) = 0"
    using exit_codes [where env = "quiet_run (Returns (local_validator users_spec))"
        and v = "local_validator users_spec"] nb
    by (simp add: quiet_run_def)
  have 3: "main (Validate (quiet_run (Raises KeyboardInterrupt))) = 130"
    using exit_codes [where env = "quiet_run (Raises KeyboardInterrupt)"
        and x = KeyboardInterrupt]
    by (simp add: quiet_run_def)
  have 4: "main (Validate (quiet_run (Raises Exception))) = 1"
    using exit_codes [where env = "quiet_run (Raises Exception)" and x = Exception]
    by (simp add: quiet_run_def)
  have 5: "main (Detect_Drift first_run) = 0"
    using exit_codes [where denv = first_run
        and d = "No_Drift ''No previous snapshots to compare against''"]
    by (simp add: first_run_def)
  have 6: "main (Generate_Report (report_run True)) = 0"
    using exit_codes [where renv = "report_run True" and w = failed_validator]
    by (simp add: report_run_def)
  have 7: "main (Generate_Report (report_run False)) = 1"
    using exit_codes [where renv = "report_run False" and w = failed_validator]
    by (simp add: report_run_def)
  from b nb 1 2 3 4 5 6 7 show ?thesis by blast
qed

end
